theory Spec2Isabelle
  imports Main "HOL-Library.Word"
begin

unbundle bit_operations_syntax

section \<open>TDSBridge: the TDS framing engine of the bridge\<close>

text \<open>
  A shallow embedding of the Go package \<^verbatim>\<open>pkg\<close> (header.go, packet.go, message.go,
  connection.go) and of \<^verbatim>\<open>main.go\<close>. Go's \<^verbatim>\<open>byte\<close> is an 8-bit word, \<^verbatim>\<open>uint16\<close> and
  \<^verbatim>\<open>uint32\<close> are 16- and 32-bit words, and \<^verbatim>\<open>int\<close> is modelled as an unbounded integer:
  on the 64-bit platforms the program is built for, no \<^verbatim>\<open>int\<close> computed below leaves the
  64-bit range (the largest is a \<^verbatim>\<open>uint32\<close> converted to \<^verbatim>\<open>int\<close>). A Go slice is the list of
  its elements; every slice below has its capacity equal to its length. A run-time panic
  of the Go program is the left summand of a result.
\<close>

subsection \<open>The Go run time: panics, make, copy, indexing, slicing\<close>

type_synonym byte = "8 word"

datatype panic = IndexOutOfRange | SliceBoundsOutOfRange | MakesliceLenOutOfRange

text \<open>\<^verbatim>\<open>make([]byte, n)\<close>: a zeroed slice; a negative length panics.\<close>

definition go_make :: "int \<Rightarrow> panic + byte list" where
  "go_make n = (if n < 0 then Inl MakesliceLenOutOfRange else Inr (replicate (nat n) 0))"

text \<open>\<^verbatim>\<open>copy(dst, src)\<close>: the first \<^verbatim>\<open>min(len(dst), len(src))\<close> elements of dst are overwritten;
  the result is dst after the call.\<close>

definition go_copy :: "'a list \<Rightarrow> 'a list \<Rightarrow> 'a list" where
  "go_copy dst src = take (length dst) src @ drop (length src) dst"

text \<open>\<^verbatim>\<open>s[i]\<close>, \<^verbatim>\<open>s[lo:]\<close> and \<^verbatim>\<open>s[:hi]\<close> panic outside the bounds.\<close>

definition go_index :: "'a list \<Rightarrow> int \<Rightarrow> panic + 'a" where
  "go_index s i = (if 0 \<le> i \<and> i < int (length s) then Inr (s ! nat i) else Inl IndexOutOfRange)"

definition go_slice_from :: "'a list \<Rightarrow> int \<Rightarrow> panic + 'a list" where
  "go_slice_from s lo =
     (if 0 \<le> lo \<and> lo \<le> int (length s) then Inr (drop (nat lo) s) else Inl SliceBoundsOutOfRange)"

definition go_slice_to :: "'a list \<Rightarrow> int \<Rightarrow> panic + 'a list" where
  "go_slice_to s hi =
     (if 0 \<le> hi \<and> hi \<le> int (length s) then Inr (take (nat hi) s) else Inl SliceBoundsOutOfRange)"

subsection \<open>header.go\<close>

definition END_OF_MESSAGE :: byte where "END_OF_MESSAGE = 0x01"
definition IGNORE_EVENT :: byte where "IGNORE_EVENT = 0x02"

definition HEADER_SIZE :: int where "HEADER_SIZE = 8"

record TDSHeader =
  Buffer :: "byte list"

definition NewTDSHeader :: "byte list \<Rightarrow> TDSHeader" where
  "NewTDSHeader buffer =
     (let h = \<lparr>Buffer = replicate (nat HEADER_SIZE) 0\<rparr>
      in if int (length buffer) \<ge> HEADER_SIZE
         then h\<lparr>Buffer := go_copy (Buffer h) (take (nat HEADER_SIZE) buffer)\<rparr>
         else h)"

text \<open>\<^verbatim>\<open>HeaderType\<close> is an \<^verbatim>\<open>int\<close>; the accessors index the buffer without a check.\<close>

definition TDSHeader_Type :: "TDSHeader \<Rightarrow> panic + int" where
  "TDSHeader_Type h =
     (case go_index (Buffer h) 0 of Inl e \<Rightarrow> Inl e | Inr b \<Rightarrow> Inr (uint b))"

definition TDSHeader_StatusBitMask :: "TDSHeader \<Rightarrow> panic + byte" where
  "TDSHeader_StatusBitMask h = go_index (Buffer h) 1"

definition TDSHeader_LengthIncludingHeader :: "TDSHeader \<Rightarrow> panic + int" where
  "TDSHeader_LengthIncludingHeader h =
     (case go_index (Buffer h) 2 of
        Inl e \<Rightarrow> Inl e
      | Inr b2 \<Rightarrow>
          (case go_index (Buffer h) 3 of
             Inl e \<Rightarrow> Inl e
           | Inr b3 \<Rightarrow> Inr (uint b2 * 0x100 + uint b3)))"

definition TDSHeader_PayloadSize :: "TDSHeader \<Rightarrow> panic + int" where
  "TDSHeader_PayloadSize h =
     (case TDSHeader_LengthIncludingHeader h of
        Inl e \<Rightarrow> Inl e
      | Inr l \<Rightarrow> Inr (l - HEADER_SIZE))"

record AllHeader =
  AllHeader_Payload :: "byte list"

definition NewAllHeader :: "byte list \<Rightarrow> AllHeader" where
  "NewAllHeader payload = \<lparr>AllHeader_Payload = payload\<rparr>"

text \<open>The sum is computed in \<^verbatim>\<open>uint32\<close>; the indexing is guarded by the length test.\<close>

definition AllHeader_Length :: "AllHeader \<Rightarrow> 32 word" where
  "AllHeader_Length ah =
     (if length (AllHeader_Payload ah) \<ge> 4
      then ucast (AllHeader_Payload ah ! 3) * 0x01000000 +
           ucast (AllHeader_Payload ah ! 2) * 0x00010000 +
           ucast (AllHeader_Payload ah ! 1) * 0x00000100 +
           ucast (AllHeader_Payload ah ! 0) * 0x00000001
      else 0)"

subsection \<open>packet.go\<close>

record TDSPacket =
  Header :: TDSHeader
  Payload :: "byte list"

definition NewTDSPacket :: "byte list \<Rightarrow> byte list \<Rightarrow> int \<Rightarrow> panic + TDSPacket" where
  "NewTDSPacket header payload payloadSize =
     (let tHeader = NewTDSHeader header
      in case go_make payloadSize of
           Inl e \<Rightarrow> Inl e
         | Inr tPayload \<Rightarrow>
             Inr \<lparr>Header = tHeader,
                  Payload = (if int (length payload) \<ge> payloadSize
                             then go_copy tPayload (take (nat payloadSize) payload)
                             else tPayload)\<rparr>)"

subsection \<open>message.go\<close>

record BaseTDSMessage =
  Packets :: "TDSPacket list"

definition NewBaseTDSMessage :: BaseTDSMessage where
  "NewBaseTDSMessage = \<lparr>Packets = []\<rparr>"

definition NewBaseTDSMessageWithPacket :: "TDSPacket \<Rightarrow> BaseTDSMessage" where
  "NewBaseTDSMessageWithPacket firstPacket = \<lparr>Packets = [firstPacket]\<rparr>"

definition IsComplete :: "BaseTDSMessage \<Rightarrow> panic + bool" where
  "IsComplete m =
     (if length (Packets m) = 0 then Inr False
      else case go_index (Packets m) (int (length (Packets m)) - 1) of
             Inl e \<Rightarrow> Inl e
           | Inr lastPacket \<Rightarrow>
               (case TDSHeader_StatusBitMask (Header lastPacket) of
                  Inl e \<Rightarrow> Inl e
                | Inr s \<Rightarrow> Inr ((s AND END_OF_MESSAGE) = END_OF_MESSAGE)))"

definition HasIgnoreBitSet :: "BaseTDSMessage \<Rightarrow> panic + bool" where
  "HasIgnoreBitSet m =
     (if length (Packets m) = 0 then Inr False
      else case go_index (Packets m) (int (length (Packets m)) - 1) of
             Inl e \<Rightarrow> Inl e
           | Inr lastPacket \<Rightarrow>
               (case TDSHeader_StatusBitMask (Header lastPacket) of
                  Inl e \<Rightarrow> Inl e
                | Inr s \<Rightarrow> Inr ((s AND IGNORE_EVENT) = IGNORE_EVENT)))"

definition AddPacket :: "BaseTDSMessage \<Rightarrow> TDSPacket \<Rightarrow> BaseTDSMessage" where
  "AddPacket m packet = m\<lparr>Packets := Packets m @ [packet]\<rparr>"

text \<open>The four implementations of the interface \<^verbatim>\<open>TDSMessage\<close>, each embedding a
  \<^verbatim>\<open>BaseTDSMessage\<close>.\<close>

datatype TDSMessage =
    DefaultTDSMessage BaseTDSMessage
  | SQLBatchMessage BaseTDSMessage
  | RPCRequestMessage BaseTDSMessage
  | AttentionMessage BaseTDSMessage

definition NewSQLBatchMessage :: TDSMessage where
  "NewSQLBatchMessage = SQLBatchMessage NewBaseTDSMessage"

definition NewDefaultTDSMessage :: TDSMessage where
  "NewDefaultTDSMessage = DefaultTDSMessage NewBaseTDSMessage"

definition NewRPCRequestMessage :: TDSMessage where
  "NewRPCRequestMessage = RPCRequestMessage NewBaseTDSMessage"

definition NewAttentionMessage :: TDSMessage where
  "NewAttentionMessage = AttentionMessage NewBaseTDSMessage"

fun base_of :: "TDSMessage \<Rightarrow> BaseTDSMessage" where
  "base_of (DefaultTDSMessage b) = b"
| "base_of (SQLBatchMessage b) = b"
| "base_of (RPCRequestMessage b) = b"
| "base_of (AttentionMessage b) = b"

text \<open>The promoted methods of the embedded base, called through the interface.\<close>

definition TDSMessage_IsComplete :: "TDSMessage \<Rightarrow> panic + bool" where
  "TDSMessage_IsComplete msg = IsComplete (base_of msg)"

definition TDSMessage_HasIgnoreBitSet :: "TDSMessage \<Rightarrow> panic + bool" where
  "TDSMessage_HasIgnoreBitSet msg = HasIgnoreBitSet (base_of msg)"

fun TDSMessage_AddPacket :: "TDSMessage \<Rightarrow> TDSPacket \<Rightarrow> TDSMessage" where
  "TDSMessage_AddPacket (DefaultTDSMessage b) p = DefaultTDSMessage (AddPacket b p)"
| "TDSMessage_AddPacket (SQLBatchMessage b) p = SQLBatchMessage (AddPacket b p)"
| "TDSMessage_AddPacket (RPCRequestMessage b) p = RPCRequestMessage (AddPacket b p)"
| "TDSMessage_AddPacket (AttentionMessage b) p = AttentionMessage (AddPacket b p)"

definition SQLBatch :: int where "SQLBatch = 1"
definition RPC :: int where "RPC = 3"
definition AttentionSignal :: int where "AttentionSignal = 6"

definition CreateTDSMessageFromFirstPacket :: "TDSPacket \<Rightarrow> panic + TDSMessage" where
  "CreateTDSMessageFromFirstPacket firstPacket =
     (case TDSHeader_Type (Header firstPacket) of
        Inl e \<Rightarrow> Inl e
      | Inr t \<Rightarrow>
          Inr (if t = SQLBatch then SQLBatchMessage (NewBaseTDSMessageWithPacket firstPacket)
               else if t = AttentionSignal
                 then AttentionMessage (NewBaseTDSMessageWithPacket firstPacket)
               else if t = RPC then RPCRequestMessage (NewBaseTDSMessageWithPacket firstPacket)
               else DefaultTDSMessage (NewBaseTDSMessageWithPacket firstPacket)))"

text \<open>\<^verbatim>\<open>AssemblePayload\<close>: the first loop adds up the payload lengths, the second copies each
  payload into \<^verbatim>\<open>payload[currentPosition:]\<close>.\<close>

fun AssemblePayload_size :: "TDSPacket list \<Rightarrow> int \<Rightarrow> int" where
  "AssemblePayload_size [] totalSize = totalSize"
| "AssemblePayload_size (packet # ps) totalSize =
     AssemblePayload_size ps (totalSize + int (length (Payload packet)))"

fun AssemblePayload_fill :: "TDSPacket list \<Rightarrow> byte list \<Rightarrow> int \<Rightarrow> panic + byte list" where
  "AssemblePayload_fill [] payload currentPosition = Inr payload"
| "AssemblePayload_fill (packet # ps) payload currentPosition =
     (case go_slice_from payload currentPosition of
        Inl e \<Rightarrow> Inl e
      | Inr dst \<Rightarrow>
          AssemblePayload_fill ps
            (take (nat currentPosition) payload @ go_copy dst (Payload packet))
            (currentPosition + int (length (Payload packet))))"

definition AssemblePayload :: "BaseTDSMessage \<Rightarrow> panic + byte list" where
  "AssemblePayload m =
     (case go_make (AssemblePayload_size (Packets m) 0) of
        Inl e \<Rightarrow> Inl e
      | Inr payload \<Rightarrow> AssemblePayload_fill (Packets m) payload 0)"

text \<open>
  The Go standard library, as \<^verbatim>\<open>GetBatchText\<close> uses it: \<^verbatim>\<open>utf16.Decode\<close> (a surrogate pair
  becomes one rune, a lone surrogate becomes U+FFFD) and the conversion \<^verbatim>\<open>string([]rune)\<close>
  (the UTF-8 encoding of each rune, U+FFFD for a value that is no Unicode scalar value).
  A rune is an \<^verbatim>\<open>int32\<close>, here an integer; a Go string is the list of its bytes.
\<close>

definition surr1 :: int where "surr1 = 0xd800"
definition surr2 :: int where "surr2 = 0xdc00"
definition surr3 :: int where "surr3 = 0xe000"
definition surrSelf :: int where "surrSelf = 0x10000"
definition replacementChar :: int where "replacementChar = 0xFFFD"

definition utf16_DecodeRune :: "int \<Rightarrow> int \<Rightarrow> int" where
  "utf16_DecodeRune r1 r2 =
     (if surr1 \<le> r1 \<and> r1 < surr2 \<and> surr2 \<le> r2 \<and> r2 < surr3
      then (push_bit 10 (r1 - surr1) OR (r2 - surr2)) + surrSelf
      else replacementChar)"

fun utf16_Decode :: "16 word list \<Rightarrow> int list" where
  "utf16_Decode [] = []"
| "utf16_Decode (r # s) =
     (if uint r < surr1 \<or> surr3 \<le> uint r then uint r # utf16_Decode s
      else case s of
             r2 # s' \<Rightarrow>
               (if surr1 \<le> uint r \<and> uint r < surr2 \<and> surr2 \<le> uint r2 \<and> uint r2 < surr3
                then utf16_DecodeRune (uint r) (uint r2) # utf16_Decode s'
                else replacementChar # utf16_Decode s)
           | [] \<Rightarrow> replacementChar # utf16_Decode s)"

definition utf8_EncodeRune :: "int \<Rightarrow> byte list" where
  "utf8_EncodeRune r =
     (if r < 0 \<or> 0x10FFFF < r \<or> (0xD800 \<le> r \<and> r \<le> 0xDFFF) then [0xEF, 0xBF, 0xBD]
      else if r < 0x80 then [word_of_int r]
      else if r < 0x800 then
        [0xC0 OR word_of_int (drop_bit 6 r), 0x80 OR (word_of_int r AND 0x3F)]
      else if r < 0x10000 then
        [0xE0 OR word_of_int (drop_bit 12 r),
         0x80 OR (word_of_int (drop_bit 6 r) AND 0x3F),
         0x80 OR (word_of_int r AND 0x3F)]
      else
        [0xF0 OR word_of_int (drop_bit 18 r),
         0x80 OR (word_of_int (drop_bit 12 r) AND 0x3F),
         0x80 OR (word_of_int (drop_bit 6 r) AND 0x3F),
         0x80 OR (word_of_int r AND 0x3F)])"

definition go_string :: "int list \<Rightarrow> byte list" where
  "go_string runes = concat (map utf8_EncodeRune runes)"

text \<open>The loop of \<^verbatim>\<open>GetBatchText\<close> that fills \<^verbatim>\<open>utf16Runes\<close>; the sum and the shift are
  computed in \<^verbatim>\<open>uint16\<close>.\<close>

function GetBatchText_loop :: "byte list \<Rightarrow> nat \<Rightarrow> 16 word list \<Rightarrow> panic + 16 word list" where
  "GetBatchText_loop utf16Bytes i utf16Runes =
     (if i < length utf16Runes
      then case go_index utf16Bytes (int i * 2) of
             Inl e \<Rightarrow> Inl e
           | Inr lo \<Rightarrow>
               (case go_index utf16Bytes (int i * 2 + 1) of
                  Inl e \<Rightarrow> Inl e
                | Inr hi \<Rightarrow>
                    GetBatchText_loop utf16Bytes (i + 1)
                      (utf16Runes[i := ucast lo + push_bit 8 (ucast hi)]))
      else Inr utf16Runes)"
  by pat_completeness auto
termination
  by (relation "measure (\<lambda>(utf16Bytes, i, utf16Runes). length utf16Runes - i)") auto

declare GetBatchText_loop.simps [simp del]

text \<open>\<^verbatim>\<open>GetBatchText\<close> is a method of \<^verbatim>\<open>SQLBatchMessage\<close>; it reads the embedded base only.\<close>

definition GetBatchText :: "BaseTDSMessage \<Rightarrow> panic + byte list" where
  "GetBatchText m =
     (case AssemblePayload m of
        Inl e \<Rightarrow> Inl e
      | Inr payload \<Rightarrow>
          (let allHeader = NewAllHeader payload;
               headerLength = uint (AllHeader_Length allHeader)
           in if int (length payload) > headerLength
              then case go_slice_from payload headerLength of
                     Inl e \<Rightarrow> Inl e
                   | Inr utf16Bytes \<Rightarrow>
                       (case GetBatchText_loop utf16Bytes 0
                               (replicate (length utf16Bytes div 2) 0) of
                          Inl e \<Rightarrow> Inl e
                        | Inr utf16Runes \<Rightarrow> Inr (go_string (utf16_Decode utf16Runes)))
              else Inr []))"

subsection \<open>connection.go: the ingress loop\<close>

text \<open>
  The two sockets of a bridged connection are the environment of the loop. The client
  socket holds the segments the client has sent and that have not been read yet; a
  \<^verbatim>\<open>Read\<close> into a buffer of \<open>k\<close> bytes returns at most \<open>k\<close> bytes of the first pending
  segment (so it may return fewer bytes than were asked for), leaves the rest pending,
  and returns an error once nothing is pending (the client has closed). The upstream
  socket accepts a number of whole writes (\<open>None\<close>: every write) and fails afterwards.
  Every read, write and published notification is recorded, in order, in a trace.
\<close>

datatype ConnectionType = ClientBridge | BridgeSQL

datatype event =
    ClientRead nat "byte list" bool
  | UpstreamWrite "byte list" bool
  | TDSPacketReceived TDSPacket
  | TDSMessageReceived TDSMessage
  | BridgeException ConnectionType
  | ConnectionDisconnected ConnectionType
  | SocketClosed ConnectionType

record world =
  client_pending :: "byte list list"
  upstream_writes_left :: "nat option"
  trace :: "event list"

definition publish :: "event \<Rightarrow> world \<Rightarrow> world" where
  "publish e w = w\<lparr>trace := trace w @ [e]\<rparr>"

text \<open>\<^verbatim>\<open>ClientBridgeSocket.Read(b)\<close> with \<open>k = len(b)\<close>: the bytes read and whether \<^verbatim>\<open>err != nil\<close>.
  The event records \<open>k\<close>, the bytes and the error flag.\<close>

definition ClientBridgeSocket_Read :: "nat \<Rightarrow> world \<Rightarrow> (byte list \<times> bool) \<times> world" where
  "ClientBridgeSocket_Read k w =
     (case client_pending w of
        [] \<Rightarrow> (([], True), publish (ClientRead k [] True) w)
      | c # cs \<Rightarrow>
          ((take k c, False),
           publish (ClientRead k (take k c) False)
             (w\<lparr>client_pending := (if drop k c = [] then cs else drop k c # cs)\<rparr>)))"

text \<open>\<^verbatim>\<open>BridgeSQLSocket.Write(b)\<close>: whether \<^verbatim>\<open>err != nil\<close>.\<close>

definition BridgeSQLSocket_Write :: "byte list \<Rightarrow> world \<Rightarrow> bool \<times> world" where
  "BridgeSQLSocket_Write b w =
     (case upstream_writes_left w of
        None \<Rightarrow> (False, publish (UpstreamWrite b False) w)
      | Some 0 \<Rightarrow> (True, publish (UpstreamWrite b True) w)
      | Some (Suc n) \<Rightarrow>
          (False, publish (UpstreamWrite b False) (w\<lparr>upstream_writes_left := Some n\<rparr>)))"

text \<open>How a run of the loop ends: by \<^verbatim>\<open>return\<close>, or by a panic (which, unrecovered, ends the
  process after the deferred call has run).\<close>

datatype outcome = Returned | Panicked panic

text \<open>The local variables of \<^verbatim>\<open>clientBridgeToSQLServer\<close> that live across iterations. The
  nil slice \<^verbatim>\<open>bBuffer\<close> is the empty list: the loop never makes an empty buffer.\<close>

record ingress_vars =
  bBuffer :: "byte list"
  bHeader :: "byte list"
  tdsMessage :: "TDSMessage option"

definition HeaderType_23 :: int where "HeaderType_23 = 23"

text \<open>The payload read of lines 295 and 297: \<^verbatim>\<open>Read(bBuffer[:hi])\<close> writes the bytes read to
  the front of the buffer; the result carries \<^verbatim>\<open>received\<close> and whether \<^verbatim>\<open>err != nil\<close>.\<close>

definition ingress_read_payload ::
  "ingress_vars \<Rightarrow> int \<Rightarrow> world \<Rightarrow> (outcome + ingress_vars \<times> int \<times> bool) \<times> world" where
  "ingress_read_payload v hi w =
     (case go_slice_to (bBuffer v) hi of
        Inl p \<Rightarrow> (Inl (Panicked p), w)
      | Inr dst \<Rightarrow>
          (case ClientBridgeSocket_Read (length dst) w of
             ((data, err), w1) \<Rightarrow>
               (Inr (v\<lparr>bBuffer := go_copy (bBuffer v) data\<rparr>, int (length data), err), w1)))"

text \<open>Lines 276 to 303: the header is read into \<^verbatim>\<open>bHeader\<close> and parsed, the scratch buffer is
  replaced by a larger one when it is too small, and the payload is read. The result
  carries the parsed header and \<^verbatim>\<open>received\<close>.\<close>

definition ingress_receive ::
  "ingress_vars \<Rightarrow> world \<Rightarrow> (outcome + ingress_vars \<times> TDSHeader \<times> int) \<times> world" where
  "ingress_receive v w =
     (case ClientBridgeSocket_Read (length (bHeader v)) w of
        ((data, err), w1) \<Rightarrow>
          if err \<or> length data = 0
          then (Inl Returned, publish (BridgeException ClientBridge) w1)
          else
            (let v1 = v\<lparr>bHeader := go_copy (bHeader v) data\<rparr>;
                 header = NewTDSHeader (bHeader v1)
             in case TDSHeader_LengthIncludingHeader header of
                  Inl p \<Rightarrow> (Inl (Panicked p), w1)
                | Inr lih \<Rightarrow>
                    (let minBufferSize = max 0x1000 (lih + 1)
                     in case (if bBuffer v1 = [] \<or> int (length (bBuffer v1)) < minBufferSize
                              then go_make minBufferSize else Inr (bBuffer v1)) of
                          Inl p \<Rightarrow> (Inl (Panicked p), w1)
                        | Inr buf \<Rightarrow>
                            (let v2 = v1\<lparr>bBuffer := buf\<rparr>
                             in case TDSHeader_Type header of
                                  Inl p \<Rightarrow> (Inl (Panicked p), w1)
                                | Inr ty \<Rightarrow>
                                    (case (if ty = HeaderType_23
                                           then ingress_read_payload v2 (0x1000 - HEADER_SIZE) w1
                                           else (case TDSHeader_PayloadSize header of
                                                   Inl p \<Rightarrow> (Inl (Panicked p), w1)
                                                 | Inr payloadSize \<Rightarrow>
                                                     if payloadSize > 0
                                                     then ingress_read_payload v2 payloadSize w1
                                                     else (Inr (v2, 0, False), w1))) of
                                       (Inl out, w2) \<Rightarrow> (Inl out, w2)
                                     | (Inr (v3, received, err2), w2) \<Rightarrow>
                                         if err2
                                         then (Inl Returned,
                                               publish (BridgeException ClientBridge) w2)
                                         else (Inr (v3, header, received), w2))))))"

text \<open>Lines 305 to 322: the packet is built and announced, the message in progress is
  started or extended, and a packet with the end-of-message bit completes it.\<close>

definition ingress_assemble ::
  "ingress_vars \<Rightarrow> TDSHeader \<Rightarrow> world \<Rightarrow> (outcome + ingress_vars) \<times> world" where
  "ingress_assemble v header w =
     (case TDSHeader_PayloadSize header of
        Inl p \<Rightarrow> (Inl (Panicked p), w)
      | Inr payloadSize \<Rightarrow>
          (case NewTDSPacket (bHeader v) (bBuffer v) payloadSize of
             Inl p \<Rightarrow> (Inl (Panicked p), w)
           | Inr tdsPacket \<Rightarrow>
               let w1 = publish (TDSPacketReceived tdsPacket) w
               in case (case tdsMessage v of
                          None \<Rightarrow> CreateTDSMessageFromFirstPacket tdsPacket
                        | Some m \<Rightarrow> Inr (TDSMessage_AddPacket m tdsPacket)) of
                    Inl p \<Rightarrow> (Inl (Panicked p), w1)
                  | Inr msg \<Rightarrow>
                      (case TDSHeader_StatusBitMask header of
                         Inl p \<Rightarrow> (Inl (Panicked p), w1)
                       | Inr s \<Rightarrow>
                           if (s AND END_OF_MESSAGE) = END_OF_MESSAGE
                           then (Inr (v\<lparr>tdsMessage := None\<rparr>),
                                 publish (TDSMessageReceived msg) w1)
                           else (Inr (v\<lparr>tdsMessage := Some msg\<rparr>), w1))))"

text \<open>Lines 324 to 341: the header and then the payload are written upstream.\<close>

definition ingress_forward ::
  "ingress_vars \<Rightarrow> TDSHeader \<Rightarrow> int \<Rightarrow> world \<Rightarrow> (outcome + ingress_vars) \<times> world" where
  "ingress_forward v header received w =
     (case BridgeSQLSocket_Write (bHeader v) w of
        (err, w1) \<Rightarrow>
          if err then (Inl Returned, publish (BridgeException ClientBridge) w1)
          else
            (case TDSHeader_Type header of
               Inl p \<Rightarrow> (Inl (Panicked p), w1)
             | Inr ty \<Rightarrow>
                 (case (if ty = HeaderType_23 then go_slice_to (bBuffer v) received
                        else (case TDSHeader_PayloadSize header of
                                Inl p \<Rightarrow> Inl p
                              | Inr payloadSize \<Rightarrow> go_slice_to (bBuffer v) payloadSize)) of
                    Inl p \<Rightarrow> (Inl (Panicked p), w1)
                  | Inr out \<Rightarrow>
                      (case BridgeSQLSocket_Write out w1 of
                         (err2, w2) \<Rightarrow>
                           if err2
                           then (Inl Returned, publish (BridgeException ClientBridge) w2)
                           else (Inr v, w2)))))"

text \<open>One iteration of the \<^verbatim>\<open>for\<close> loop.\<close>

definition ingress_iteration :: "ingress_vars \<Rightarrow> world \<Rightarrow> (outcome + ingress_vars) \<times> world" where
  "ingress_iteration v w =
     (case ingress_receive v w of
        (Inl out, w1) \<Rightarrow> (Inl out, w1)
      | (Inr (v1, header, received), w1) \<Rightarrow>
          (case ingress_assemble v1 header w1 of
             (Inl out, w2) \<Rightarrow> (Inl out, w2)
           | (Inr v2, w2) \<Rightarrow> ingress_forward v2 header received w2))"

text \<open>The loop ends: every iteration that goes on has read at least one byte of the
  client's pending segments.\<close>

definition pending_size :: "byte list list \<Rightarrow> nat" where
  "pending_size cs = sum_list (map (\<lambda>c. Suc (length c)) cs)"

lemma client_pending_publish [simp]: "client_pending (publish e w) = client_pending w"
  by (simp add: publish_def)

lemma ClientBridgeSocket_Read_pending:
  "ClientBridgeSocket_Read k w = ((data, err), w1) \<Longrightarrow>
     pending_size (client_pending w1) \<le> pending_size (client_pending w) \<and>
     (\<not> err \<and> data \<noteq> [] \<longrightarrow> pending_size (client_pending w1) < pending_size (client_pending w))"
  by (auto simp: ClientBridgeSocket_Read_def pending_size_def split: list.splits if_splits)

lemma BridgeSQLSocket_Write_pending:
  "BridgeSQLSocket_Write b w = (err, w1) \<Longrightarrow> client_pending w1 = client_pending w"
  by (auto simp: BridgeSQLSocket_Write_def split: option.splits nat.splits)

lemma ingress_read_payload_pending:
  "ingress_read_payload v hi w = (r, w1) \<Longrightarrow>
     pending_size (client_pending w1) \<le> pending_size (client_pending w)"
  unfolding ingress_read_payload_def
  by (auto split: prod.splits sum.splits dest: ClientBridgeSocket_Read_pending)

lemma ingress_receive_pending:
  "ingress_receive v w = (Inr r, w1) \<Longrightarrow>
     pending_size (client_pending w1) < pending_size (client_pending w)"
  unfolding ingress_receive_def Let_def
  by (auto split: prod.splits sum.splits if_splits
      dest!: ClientBridgeSocket_Read_pending ingress_read_payload_pending)

lemma ingress_assemble_pending:
  "ingress_assemble v header w = (r, w1) \<Longrightarrow> client_pending w1 = client_pending w"
  unfolding ingress_assemble_def Let_def
  by (auto split: sum.splits if_splits option.splits)

lemma ingress_forward_pending:
  "ingress_forward v header received w = (r, w1) \<Longrightarrow> client_pending w1 = client_pending w"
  unfolding ingress_forward_def Let_def
  by (auto split: prod.splits sum.splits if_splits dest!: BridgeSQLSocket_Write_pending)

lemma ingress_iteration_pending:
  assumes "ingress_iteration v w = (Inr v', w')"
  shows "pending_size (client_pending w') < pending_size (client_pending w)"
proof -
  from assms obtain v1 header received w1 v2 w2
    where r: "ingress_receive v w = (Inr (v1, header, received), w1)"
      and a: "ingress_assemble v1 header w1 = (Inr v2, w2)"
      and f: "ingress_forward v2 header received w2 = (Inr v', w')"
    unfolding ingress_iteration_def by (auto split: prod.splits sum.splits)
  from ingress_receive_pending [OF r] ingress_assemble_pending [OF a]
    ingress_forward_pending [OF f]
  show ?thesis by simp
qed

function ingress_loop :: "ingress_vars \<Rightarrow> world \<Rightarrow> outcome \<times> world" where
  "ingress_loop v w =
     (case ingress_iteration v w of
        (Inl out, w') \<Rightarrow> (out, w')
      | (Inr v', w') \<Rightarrow> ingress_loop v' w')"
  by pat_completeness auto
termination
  by (relation "measure (\<lambda>(v, w). pending_size (client_pending w))")
    (auto dest: ingress_iteration_pending [OF sym])

declare ingress_loop.simps [simp del]

text \<open>\<^verbatim>\<open>clientBridgeToSQLServer\<close>: the loop, then the deferred \<^verbatim>\<open>onConnectionDisconnected\<close>, which
  publishes the event and closes the upstream socket.\<close>

definition clientBridgeToSQLServer :: "world \<Rightarrow> outcome \<times> world" where
  "clientBridgeToSQLServer w =
     (case ingress_loop \<lparr>bBuffer = [], bHeader = replicate (nat HEADER_SIZE) 0,
                          tdsMessage = None\<rparr> w of
        (out, w') \<Rightarrow>
          (out, publish (SocketClosed BridgeSQL)
                  (publish (ConnectionDisconnected ClientBridge) w')))"

subsection \<open>connection.go: starting and stopping the acceptor\<close>

text \<open>The acceptor's state, as far as \<^verbatim>\<open>Start\<close> and \<^verbatim>\<open>Stop\<close> use it (both hold the mutex for
  their whole body). \<^verbatim>\<open>net.Listen\<close> is a parameter: for an address, the error it returns
  (\<open>None\<close> is \<^verbatim>\<open>nil\<close>). The accept loop that \<^verbatim>\<open>Start\<close> spawns runs beside the caller and is
  not part of this model.\<close>

record BridgeAcceptor =
  acceptPort :: string
  sqlServerEndpoint :: string
  listener :: "string option"
  enabled :: bool

definition NewBridgeAcceptor :: "string \<Rightarrow> string \<Rightarrow> BridgeAcceptor" where
  "NewBridgeAcceptor port endpoint =
     \<lparr>acceptPort = port, sqlServerEndpoint = endpoint, listener = None, enabled = False\<rparr>"

definition BridgeAcceptor_Start ::
  "(string \<Rightarrow> string option) \<Rightarrow> BridgeAcceptor \<Rightarrow> string option \<times> BridgeAcceptor" where
  "BridgeAcceptor_Start listen ba =
     (if enabled ba then (None, ba)
      else
        let ba1 = ba\<lparr>enabled := True\<rparr>
        in case listen ('':'' @ acceptPort ba1) of
             Some err \<Rightarrow> (Some err, ba1\<lparr>enabled := False\<rparr>)
           | None \<Rightarrow> (None, ba1\<lparr>listener := Some ('':'' @ acceptPort ba1)\<rparr>))"

definition BridgeAcceptor_Stop :: "BridgeAcceptor \<Rightarrow> BridgeAcceptor" where
  "BridgeAcceptor_Stop ba =
     (if \<not> enabled ba then ba
      else
        let ba1 = ba\<lparr>enabled := False\<rparr>
        in if listener ba1 \<noteq> None then ba1\<lparr>listener := None\<rparr> else ba1)"

subsection \<open>main.go\<close>

text \<open>
  The environment of the process: its arguments, the resolver (an error, or the addresses
  of a host), the result of binding the listener, and whether \<^verbatim>\<open>fmt.Scanln\<close> ever returns
  (a line, the end of the input or an error arrives on standard input). A Go process
  whose \<^verbatim>\<open>main\<close> returns exits with status 0; an unrecovered panic exits with status 2;
  \<^verbatim>\<open>main.go\<close> never calls \<^verbatim>\<open>os.Exit\<close>. The result of \<open>main\<close> is the lines printed and how the
  process ends.
\<close>

record process_env =
  os_Args :: "string list"
  net_LookupHost :: "string \<Rightarrow> string + string list"
  net_Listen :: "string \<Rightarrow> string option"
  stdin_returns :: bool

datatype exit_status = Exit int | Blocked

text \<open>The standard library's \<^verbatim>\<open>net.JoinHostPort\<close>: a host with a colon or a percent sign is
  put in brackets.\<close>

definition net_JoinHostPort :: "string \<Rightarrow> string \<Rightarrow> string" where
  "net_JoinHostPort host port =
     (if List.member host (CHR '':'') \<or> List.member host (CHR ''%'')
      then ''['' @ host @ '']:'' @ port
      else host @ '':'' @ port)"

definition usage :: "string list" where
  "usage = [''TDSBridge <listen port> <sql server address> <sql server port>'']"

definition main :: "process_env \<Rightarrow> string list \<times> exit_status" where
  "main env =
     (if length (os_Args env) < 4 then (usage, Exit 0)
      else
        let listenPort = os_Args env ! 1;
            sqlServerAddr = os_Args env ! 2;
            sqlServerPort = os_Args env ! 3
        in case net_LookupHost env sqlServerAddr of
             Inl err \<Rightarrow> ([''Error resolving SQL Server address: '' @ err], Exit 0)
           | Inr iphe \<Rightarrow>
               (case go_index iphe 0 of
                  Inl p \<Rightarrow> ([], Exit 2)
                | Inr ip \<Rightarrow>
                    let sqlServerEndpoint = net_JoinHostPort ip sqlServerPort;
                        bridgeAcceptor = NewBridgeAcceptor listenPort sqlServerEndpoint
                    in case BridgeAcceptor_Start (net_Listen env) bridgeAcceptor of
                         (Some err, ba) \<Rightarrow> ([''Error starting bridge: '' @ err], Exit 0)
                       | (None, ba) \<Rightarrow>
                           if stdin_returns env
                           then (let ba' = BridgeAcceptor_Stop ba
                                 in ([''Press enter to kill this process...''], Exit 0))
                           else ([''Press enter to kill this process...''], Blocked)))"

section \<open>The specification's vocabulary\<close>

text \<open>
  Definitions that follow the words of the specification, to compare the code with: the
  little-endian 32-bit value of four bytes; the ALL_HEADERS length of a payload (the value
  of its first four bytes, and 0 for a payload of fewer than four bytes, as
  \<^verbatim>\<open>AllHeader.Length\<close> has it); the UTF-16 code units of a byte sequence, two bytes per unit
  in little-endian order (a trailing odd byte belongs to no unit); Unicode scalar values
  and their UTF-16LE encoding.
\<close>

definition le32 :: "byte \<Rightarrow> byte \<Rightarrow> byte \<Rightarrow> byte \<Rightarrow> nat" where
  "le32 b0 b1 b2 b3 = unat b0 + 256 * unat b1 + 65536 * unat b2 + 16777216 * unat b3"

definition all_headers_length :: "byte list \<Rightarrow> nat" where
  "all_headers_length payload =
     (if 4 \<le> length payload
      then le32 (payload ! 0) (payload ! 1) (payload ! 2) (payload ! 3) else 0)"

fun utf16le_units :: "byte list \<Rightarrow> 16 word list" where
  "utf16le_units (lo # hi # rest) = word_of_nat (unat lo + 256 * unat hi) # utf16le_units rest"
| "utf16le_units [b] = []"
| "utf16le_units [] = []"

definition unicode_scalar :: "int \<Rightarrow> bool" where
  "unicode_scalar c = ((0 \<le> c \<and> c < 0xD800) \<or> (0xE000 \<le> c \<and> c \<le> 0x10FFFF))"

definition utf16_encode :: "int \<Rightarrow> 16 word list" where
  "utf16_encode c =
     (if c < 0x10000 then [word_of_int c]
      else [word_of_int (0xD800 + (c - 0x10000) div 0x400),
            word_of_int (0xDC00 + (c - 0x10000) mod 0x400)])"

definition unit_bytes :: "16 word \<Rightarrow> byte list" where
  "unit_bytes u = [word_of_nat (unat u mod 256), word_of_nat (unat u div 256)]"

definition utf16le :: "int list \<Rightarrow> byte list" where
  "utf16le S = concat (map unit_bytes (concat (map utf16_encode S)))"

text \<open>
  The vocabulary of the notification order. A packet ends a message when its status byte
  has the end-of-message bit. The notifications of a trace are its packet-received and
  message-received events, in order. A message is announced by the packet-received events
  of its packets, in order, followed by its one message-received event; it is well framed
  when it has a packet, its last packet ends a message and no earlier one does.
\<close>

definition ends_message :: "TDSPacket \<Rightarrow> bool" where
  "ends_message p =
     (case TDSHeader_StatusBitMask (Header p) of
        Inl e \<Rightarrow> False
      | Inr s \<Rightarrow> (s AND END_OF_MESSAGE) = END_OF_MESSAGE)"

fun is_notification :: "event \<Rightarrow> bool" where
  "is_notification (TDSPacketReceived p) = True"
| "is_notification (TDSMessageReceived m) = True"
| "is_notification e = False"

definition notifications :: "event list \<Rightarrow> event list" where
  "notifications es = filter is_notification es"

definition announce :: "TDSMessage \<Rightarrow> event list" where
  "announce msg = map TDSPacketReceived (Packets (base_of msg)) @ [TDSMessageReceived msg]"

definition well_framed :: "TDSMessage \<Rightarrow> bool" where
  "well_framed msg =
     (Packets (base_of msg) \<noteq> [] \<and> ends_message (last (Packets (base_of msg))) \<and>
      list_all (\<lambda>p. \<not> ends_message p) (butlast (Packets (base_of msg))))"

text \<open>The bytes a trace has read from the client socket, and the bytes it has written to
  the upstream socket.\<close>

fun client_bytes :: "event list \<Rightarrow> byte list" where
  "client_bytes [] = []"
| "client_bytes (ClientRead k data err # es) = data @ client_bytes es"
| "client_bytes (e # es) = client_bytes es"

fun upstream_bytes :: "event list \<Rightarrow> byte list" where
  "upstream_bytes [] = []"
| "upstream_bytes (UpstreamWrite data err # es) =
     (if err then upstream_bytes es else data @ upstream_bytes es)"
| "upstream_bytes (e # es) = upstream_bytes es"

text \<open>
  A client stream that arrives in whole packets: every packet is one segment holding its
  eight header bytes, followed (unless the payload is empty) by one segment holding its
  payload. The header bytes give the type and the payload size; the declared length is at
  least 8; the payload has exactly the declared size, or, for the type 23, is not empty
  and has at most 4088 bytes.
\<close>

definition wire_type :: "byte list \<Rightarrow> int" where
  "wire_type h = uint (h ! 0)"

definition wire_payload_size :: "byte list \<Rightarrow> int" where
  "wire_payload_size h = uint (h ! 2) * 0x100 + uint (h ! 3) - 8"

definition whole_packet :: "byte list \<times> byte list \<Rightarrow> bool" where
  "whole_packet hb =
     (case hb of
        (h, b) \<Rightarrow>
          length h = 8 \<and> 0 \<le> wire_payload_size h \<and>
          (if wire_type h = 23 then b \<noteq> [] \<and> length b \<le> 4088
           else int (length b) = wire_payload_size h))"

fun segments_of :: "(byte list \<times> byte list) list \<Rightarrow> byte list list" where
  "segments_of [] = []"
| "segments_of ((h, b) # ps) = (if b = [] then [h] else [h, b]) @ segments_of ps"

text \<open>The invariant of the ingress loop: the notifications so far are the announcements of
  well-framed messages, one after the other, followed by the packet-received events of the
  packets of the message in progress, none of which ends a message.\<close>

definition framed :: "event list \<Rightarrow> TDSPacket list \<Rightarrow> bool" where
  "framed es pending =
     (\<exists>msgs. notifications es = concat (map announce msgs) @ map TDSPacketReceived pending \<and>
             list_all well_framed msgs \<and> list_all (\<lambda>p. \<not> ends_message p) pending)"

definition pending_packets :: "ingress_vars \<Rightarrow> TDSPacket list" where
  "pending_packets v = (case tdsMessage v of None \<Rightarrow> [] | Some m \<Rightarrow> Packets (base_of m))"

section \<open>Properties of the codec and of the message constructors\<close>

lemma length_go_copy [simp]: "length (go_copy dst src) = length dst"
  by (simp add: go_copy_def)

lemma length_Buffer_NewTDSHeader [simp]: "length (Buffer (NewTDSHeader b)) = 8"
  by (simp add: NewTDSHeader_def HEADER_SIZE_def Let_def)

lemma NewTDSHeader_of_8: "length b = 8 \<Longrightarrow> Buffer (NewTDSHeader b) = b"
  by (simp add: NewTDSHeader_def HEADER_SIZE_def Let_def go_copy_def)

lemma TDSHeader_Type_NewTDSHeader:
  "TDSHeader_Type (NewTDSHeader b) = Inr (uint (Buffer (NewTDSHeader b) ! 0))"
  by (simp add: TDSHeader_Type_def go_index_def)

lemma TDSHeader_StatusBitMask_NewTDSHeader:
  "TDSHeader_StatusBitMask (NewTDSHeader b) = Inr (Buffer (NewTDSHeader b) ! 1)"
  by (simp add: TDSHeader_StatusBitMask_def go_index_def)

lemma TDSHeader_LengthIncludingHeader_NewTDSHeader:
  "TDSHeader_LengthIncludingHeader (NewTDSHeader b) =
     Inr (uint (Buffer (NewTDSHeader b) ! 2) * 0x100 + uint (Buffer (NewTDSHeader b) ! 3))"
  by (simp add: TDSHeader_LengthIncludingHeader_def go_index_def)

lemma NewTDSHeader_8: "length h = 8 \<Longrightarrow> NewTDSHeader h = \<lparr>Buffer = h\<rparr>"
  by (simp add: NewTDSHeader_def HEADER_SIZE_def Let_def go_copy_def)

lemma NewTDSHeader_lit:
  "NewTDSHeader [a, b, c, d, e, f, g, h] = \<lparr>Buffer = [a, b, c, d, e, f, g, h]\<rparr>"
  by (simp add: NewTDSHeader_def HEADER_SIZE_def Let_def go_copy_def)

text \<open>
  Claim C5. Every packet that \<^verbatim>\<open>NewTDSPacket\<close> returns, when it is called as the bridge calls
  it (with the payload size that the parsed header declares), has a payload whose length is
  the header's length-including-header minus 8.
\<close>

theorem C5_payload_length:
  assumes "TDSHeader_PayloadSize (NewTDSHeader header) = Inr payloadSize"
      and "NewTDSPacket header payload payloadSize = Inr P"
  shows "\<exists>l. TDSHeader_LengthIncludingHeader (Header P) = Inr l \<and>
             int (length (Payload P)) = l - 8"
proof -
  from assms(2) have nonneg: "0 \<le> payloadSize"
    by (auto simp: NewTDSPacket_def go_make_def Let_def split: if_splits)
  from assms(2) have hd: "Header P = NewTDSHeader header"
    by (auto simp: NewTDSPacket_def go_make_def Let_def split: if_splits)
  from assms(2) nonneg have len: "int (length (Payload P)) = payloadSize"
    by (auto simp: NewTDSPacket_def go_make_def Let_def split: if_splits)
  from assms(1) obtain l
    where l: "TDSHeader_LengthIncludingHeader (NewTDSHeader header) = Inr l"
      and ps: "payloadSize = l - 8"
    by (auto simp: TDSHeader_PayloadSize_def HEADER_SIZE_def split: sum.splits)
  show ?thesis using hd len l ps by simp
qed

theorem C5_payload_length_witness:
  "TDSHeader_PayloadSize (NewTDSHeader [1, 1, 0, 12, 0, 0, 1, 0]) = Inr 4 \<and>
   NewTDSPacket [1, 1, 0, 12, 0, 0, 1, 0] [0x41, 0x42, 0x43, 0x44, 0x45] 4 =
     Inr \<lparr>Header = \<lparr>Buffer = [1, 1, 0, 12, 0, 0, 1, 0]\<rparr>,
          Payload = [0x41, 0x42, 0x43, 0x44]\<rparr> \<and>
   (\<exists>l. TDSHeader_LengthIncludingHeader \<lparr>Buffer = [1, 1, 0, 12, 0, 0, 1, 0]\<rparr> = Inr l \<and>
        int (length [0x41, 0x42, 0x43, 0x44 :: byte]) = l - 8)"
proof -
  have h1: "TDSHeader_PayloadSize (NewTDSHeader [1, 1, 0, 12, 0, 0, 1, 0]) = Inr 4"
    by (simp add: NewTDSHeader_lit TDSHeader_PayloadSize_def
        TDSHeader_LengthIncludingHeader_def go_index_def HEADER_SIZE_def)
  have h2: "NewTDSPacket [1, 1, 0, 12, 0, 0, 1, 0] [0x41, 0x42, 0x43, 0x44, 0x45] 4 =
     Inr \<lparr>Header = \<lparr>Buffer = [1, 1, 0, 12, 0, 0, 1, 0]\<rparr>,
          Payload = [0x41, 0x42, 0x43, 0x44]\<rparr>"
    by (simp add: NewTDSPacket_def NewTDSHeader_lit go_make_def go_copy_def Let_def
        numeral_eq_Suc)
  from C5_payload_length [OF h1 h2] h1 h2 show ?thesis by simp
qed

text \<open>\<^verbatim>\<open>NewTDSPacket\<close> returns a packet exactly when the payload size is not negative.\<close>

lemma NewTDSPacket_succeeds_iff:
  "(\<exists>P. NewTDSPacket header payload payloadSize = Inr P) \<longleftrightarrow> 0 \<le> payloadSize"
  by (auto simp: NewTDSPacket_def go_make_def Let_def)

text \<open>
  Claim C6. The claim says that packet construction never fails, also for a header whose
  declared length is below 8. The code does fail there: the header \<^verbatim>\<open>01 01 00 04 00 00 00 00\<close>
  declares the length 4, its payload size is \<open>-4\<close>, and \<^verbatim>\<open>make([]byte, -4)\<close> in
  \<^verbatim>\<open>NewTDSPacket\<close> panics.
\<close>

theorem C6_negative_payload_size_panics:
  "TDSHeader_PayloadSize (NewTDSHeader [1, 1, 0, 4, 0, 0, 0, 0]) = Inr (- 4) \<and>
   NewTDSPacket [1, 1, 0, 4, 0, 0, 0, 0] [] (- 4) = Inl MakesliceLenOutOfRange"
  by (simp add: NewTDSHeader_lit TDSHeader_PayloadSize_def TDSHeader_LengthIncludingHeader_def
        go_index_def HEADER_SIZE_def NewTDSPacket_def go_make_def)

text \<open>
  Claim C8. \<^verbatim>\<open>CreateTDSMessageFromFirstPacket\<close> classifies by the type byte of the first
  packet's header: 1 gives a SQLBatch message, 3 an RPC request message, 6 an Attention
  message and every other value a Default message; the message holds exactly that packet.
\<close>

theorem C8_classification:
  assumes "TDSHeader_Type (Header firstPacket) = Inr t"
  shows "CreateTDSMessageFromFirstPacket firstPacket =
           Inr (if t = 1 then SQLBatchMessage \<lparr>Packets = [firstPacket]\<rparr>
                else if t = 3 then RPCRequestMessage \<lparr>Packets = [firstPacket]\<rparr>
                else if t = 6 then AttentionMessage \<lparr>Packets = [firstPacket]\<rparr>
                else DefaultTDSMessage \<lparr>Packets = [firstPacket]\<rparr>)"
  using assms
  by (simp add: CreateTDSMessageFromFirstPacket_def SQLBatch_def RPC_def AttentionSignal_def
      NewBaseTDSMessageWithPacket_def)

theorem C8_classification_witness:
  "TDSHeader_Type (Header \<lparr>Header = \<lparr>Buffer = [6, 1, 0, 8, 0, 0, 0, 0]\<rparr>, Payload = []\<rparr>) = Inr 6 \<and>
   CreateTDSMessageFromFirstPacket \<lparr>Header = \<lparr>Buffer = [6, 1, 0, 8, 0, 0, 0, 0]\<rparr>, Payload = []\<rparr> =
     Inr (AttentionMessage
           \<lparr>Packets = [\<lparr>Header = \<lparr>Buffer = [6, 1, 0, 8, 0, 0, 0, 0]\<rparr>, Payload = []\<rparr>]\<rparr>)"
proof -
  have h: "TDSHeader_Type (Header \<lparr>Header = \<lparr>Buffer = [6, 1, 0, 8, 0, 0, 0, 0]\<rparr>,
             Payload = []\<rparr>) = Inr 6"
    by (simp add: TDSHeader_Type_def go_index_def)
  from C8_classification [OF h] h show ?thesis by simp
qed

text \<open>
  Claim C10. On a message with no packets (as the constructors without a packet build it),
  \<^verbatim>\<open>IsComplete\<close> and \<^verbatim>\<open>HasIgnoreBitSet\<close> both return false, and neither panics on the
  missing last packet.
\<close>

theorem C10_empty_message:
  assumes "Packets (base_of msg) = []"
  shows "TDSMessage_IsComplete msg = Inr False \<and> TDSMessage_HasIgnoreBitSet msg = Inr False"
  using assms
  by (simp add: TDSMessage_IsComplete_def TDSMessage_HasIgnoreBitSet_def IsComplete_def
      HasIgnoreBitSet_def)

theorem C10_empty_message_witness:
  "Packets (base_of NewSQLBatchMessage) = [] \<and>
   TDSMessage_IsComplete NewSQLBatchMessage = Inr False \<and>
   TDSMessage_HasIgnoreBitSet NewSQLBatchMessage = Inr False"
proof -
  have h: "Packets (base_of NewSQLBatchMessage) = []"
    by (simp add: NewSQLBatchMessage_def NewBaseTDSMessage_def)
  from C10_empty_message [OF h] h show ?thesis by simp
qed

section \<open>Properties of the payload assembly and of the batch text\<close>

lemma AssemblePayload_size_eq:
  "AssemblePayload_size ps n = n + int (length (concat (map Payload ps)))"
  by (induction ps arbitrary: n) auto

lemma AssemblePayload_fill_eq:
  "AssemblePayload_fill ps (pre @ replicate (length (concat (map Payload ps))) 0) (int (length pre))
     = Inr (pre @ concat (map Payload ps))"
proof (induction ps arbitrary: pre)
  case Nil
  then show ?case by simp
next
  case (Cons p ps)
  have "AssemblePayload_fill ps ((pre @ Payload p) @ replicate (length (concat (map Payload ps))) 0)
          (int (length (pre @ Payload p))) = Inr ((pre @ Payload p) @ concat (map Payload ps))"
    by (rule Cons.IH)
  then show ?case
    by (simp add: go_slice_from_def go_copy_def replicate_add)
qed

lemma AssemblePayload_eq: "AssemblePayload m = Inr (concat (map Payload (Packets m)))"
  using AssemblePayload_fill_eq [of "Packets m" "[]"]
  by (simp add: AssemblePayload_def go_make_def AssemblePayload_size_eq)

lemma unit_eq: "(ucast (lo :: byte) :: 16 word) + push_bit 8 (ucast (hi :: byte)) = word_of_nat (unat lo + 256 * unat hi)"
  by (simp add: push_bit_eq_mult)

lemma length_utf16le_units [simp]: "length (utf16le_units bs) = length bs div 2"
  by (induction bs rule: utf16le_units.induct) auto

lemma utf16le_units_nth:
  "i < length bs div 2 \<Longrightarrow>
     utf16le_units bs ! i = word_of_nat (unat (bs ! (2 * i)) + 256 * unat (bs ! (2 * i + 1)))"
proof (induction bs arbitrary: i rule: utf16le_units.induct)
  case (1 lo hi rest)
  then show ?case by (cases i) auto
qed auto

lemma GetBatchText_loop_eq:
  "length rs = length bs div 2 \<Longrightarrow> i \<le> length rs \<Longrightarrow>
     GetBatchText_loop bs i rs = Inr (take i rs @ drop i (utf16le_units bs))"
proof (induction bs i rs rule: GetBatchText_loop.induct)
  case (1 bs i rs)
  show ?case
  proof (cases "i < length rs")
    case False
    with 1 show ?thesis by (subst GetBatchText_loop.simps) simp
  next
    case True
    let ?v = "utf16le_units bs ! i"
    from True 1(2) have i2: "2 * i + 1 < length bs" by linarith
    have lo: "go_index bs (int i * 2) = Inr (bs ! (2 * i))"
      using i2 by (simp add: go_index_def nat_mult_distrib mult.commute)
    have hi: "go_index bs (int i * 2 + 1) = Inr (bs ! (2 * i + 1))"
      using i2 by (simp add: go_index_def nat_add_distrib nat_mult_distrib mult.commute)
    have v: "ucast (bs ! (2 * i)) + push_bit 8 (ucast (bs ! (2 * i + 1))) = ?v"
      using True 1(2) by (simp add: utf16le_units_nth unit_eq)
    have "GetBatchText_loop bs (i + 1) (rs[i := ?v])
            = Inr (take (i + 1) (rs[i := ?v]) @ drop (i + 1) (utf16le_units bs))"
      using "1.IH" [OF True lo hi] True 1(2) v by simp
    moreover have "take (i + 1) (rs[i := ?v]) = take i rs @ [?v]"
      using True by (simp add: take_Suc_conv_app_nth)
    moreover have "?v # drop (i + 1) (utf16le_units bs) = drop i (utf16le_units bs)"
      using True 1(2) by (simp add: Cons_nth_drop_Suc)
    ultimately have "GetBatchText_loop bs (i + 1) (rs[i := ?v])
            = Inr (take i rs @ drop i (utf16le_units bs))"
      by (metis append.assoc append_Cons append_Nil)
    then show ?thesis
      using True lo hi v by (subst GetBatchText_loop.simps) simp
  qed
qed



lemma le32_bound: "le32 b0 b1 b2 b3 < 2 ^ 32"
proof -
  have "\<And>b :: byte. unat b < 256"
    using unsigned_less [where ?'a = nat and ?'b = 8] by simp
  from this [of b0] this [of b1] this [of b2] this [of b3]
  show ?thesis by (simp add: le32_def)
qed

lemma AllHeader_Length_word:
  "4 \<le> length payload \<Longrightarrow>
     AllHeader_Length (NewAllHeader payload) =
       word_of_nat (le32 (payload ! 0) (payload ! 1) (payload ! 2) (payload ! 3))"
  by (simp add: AllHeader_Length_def NewAllHeader_def le32_def)

lemma AllHeader_Length_eq:
  "uint (AllHeader_Length (NewAllHeader payload)) = int (all_headers_length payload)"
proof (cases "4 \<le> length payload")
  case False
  then show ?thesis
    by (simp add: AllHeader_Length_def NewAllHeader_def all_headers_length_def)
next
  case True
  let ?n = "le32 (payload ! 0) (payload ! 1) (payload ! 2) (payload ! 3)"
  have "unat (word_of_nat ?n :: 32 word) = ?n"
    using le32_bound [of "payload ! 0" "payload ! 1" "payload ! 2" "payload ! 3"]
    by (simp add: unat_of_nat)
  then have "uint (word_of_nat ?n :: 32 word) = int ?n"
    by (metis uint_nat)
  with True show ?thesis
    by (simp add: AllHeader_Length_word all_headers_length_def)
qed

lemma unit_bytes_units: "utf16le_units (unit_bytes u @ rest) = u # utf16le_units rest"
proof -
  have lt: "unat u < 65536"
    using unsigned_less [of u, where ?'a = nat] by simp
  then have d: "unat u div 256 < 256" by simp
  have "unat (word_of_nat (unat u mod 256) :: byte) = unat u mod 256"
    by (simp add: unat_of_nat)
  moreover have "unat (word_of_nat (unat u div 256) :: byte) = unat u div 256"
    using d by (simp add: unat_of_nat)
  ultimately show ?thesis by (simp add: unit_bytes_def)
qed

lemma utf16le_units_bytes:
  "utf16le_units (concat (map unit_bytes us)) = us"
  by (induction us) (simp_all add: unit_bytes_units)

lemma utf16_Decode_encode:
  assumes "unicode_scalar c"
  shows "utf16_Decode (utf16_encode c @ rest) = c # utf16_Decode rest"
proof (cases "c < 0x10000")
  case True
  with assms have "uint (word_of_int c :: 16 word) = c"
    by (auto simp: unicode_scalar_def uint_word_of_int)
  with assms True show ?thesis
    by (auto simp: utf16_encode_def unicode_scalar_def surr1_def surr3_def)
next
  case False
  define d where "d = c - 0x10000"
  from False assms have d: "0 \<le> d" "d < 0x100000"
    by (auto simp: d_def unicode_scalar_def)
  define hi where "hi = 0xD800 + d div 0x400"
  define lo where "lo = 0xDC00 + d mod 0x400"
  from d have hi: "0xD800 \<le> hi" "hi < 0xDC00" by (auto simp: hi_def)
  from d have lo: "0xDC00 \<le> lo" "lo < 0xE000" by (auto simp: lo_def)
  have uhi: "uint (word_of_int hi :: 16 word) = hi"
    using hi by (simp add: uint_word_of_int)
  have ulo: "uint (word_of_int lo :: 16 word) = lo"
    using lo by (simp add: uint_word_of_int)
  have "push_bit 10 (d div 0x400) OR (d mod 0x400) = concat_bit 10 (d mod 0x400) (d div 0x400)"
    by (simp add: concat_bit_def take_bit_int_eq_self or.commute)
  also have "\<dots> = d mod 0x400 + push_bit 10 (d div 0x400)"
    by (simp add: concat_bit_eq take_bit_int_eq_self)
  also have "\<dots> = d" by (simp add: push_bit_eq_mult)
  finally have dec: "utf16_DecodeRune hi lo = c"
    using hi lo by (simp add: utf16_DecodeRune_def surr1_def surr2_def surr3_def surrSelf_def
        hi_def lo_def d_def)
  have enc: "utf16_encode c = [word_of_int hi, word_of_int lo]"
    using False by (simp add: utf16_encode_def hi_def lo_def d_def)
  show ?thesis
    using hi lo dec by (simp add: enc uhi ulo surr1_def surr2_def surr3_def)
qed

lemma utf16_Decode_roundtrip:
  "list_all unicode_scalar S \<Longrightarrow> utf16_Decode (concat (map utf16_encode S)) = S"
  by (induction S) (simp_all add: utf16_Decode_encode)


lemma GetBatchText_spec:
  "GetBatchText m =
     Inr (if length (concat (map Payload (Packets m)))
               \<le> all_headers_length (concat (map Payload (Packets m)))
          then []
          else go_string (utf16_Decode (utf16le_units
                 (drop (all_headers_length (concat (map Payload (Packets m))))
                    (concat (map Payload (Packets m)))))))"
  by (simp add: GetBatchText_def AssemblePayload_eq Let_def AllHeader_Length_eq
      go_slice_from_def GetBatchText_loop_eq)

text \<open>
  Claim C2. For every SQLBatch message (complete or not), \<^verbatim>\<open>GetBatchText\<close> never fails. When
  the assembled payload is not longer than its ALL_HEADERS length, the result is the empty
  string; otherwise it is the text decoded from the bytes at offset ALL_HEADERS length to
  the end of the payload, read as UTF-16 code units of two bytes in little-endian order.
  The assembled payload is the concatenation of the packets' payloads.
\<close>

theorem C2_GetBatchText:
  "let payload = concat (map Payload (Packets m)); n = all_headers_length payload
   in AssemblePayload m = Inr payload \<and>
      GetBatchText m =
        Inr (if length payload \<le> n then []
             else go_string (utf16_Decode (utf16le_units (drop n payload))))"
  by (simp add: Let_def AssemblePayload_eq GetBatchText_spec)

text \<open>
  Claim C3. Round trip: when the assembled payload of a SQLBatch message is a well-formed
  ALL_HEADERS block (at least four bytes, the first four giving its own length in
  little-endian order) followed by the UTF-16LE encoding of a text \<open>S\<close> (a sequence of
  Unicode scalar values), \<^verbatim>\<open>GetBatchText\<close> returns \<open>S\<close>, as the Go string of these runes.
\<close>

theorem C3_roundtrip:
  assumes "AssemblePayload m = Inr (all_headers @ utf16le S)"
      and "4 \<le> length all_headers"
      and "le32 (all_headers ! 0) (all_headers ! 1) (all_headers ! 2) (all_headers ! 3)
             = length all_headers"
      and "list_all unicode_scalar S"
  shows "GetBatchText m = Inr (go_string S)"
proof -
  let ?payload = "concat (map Payload (Packets m))"
  from assms(1) have payload: "?payload = all_headers @ utf16le S"
    by (simp add: AssemblePayload_eq)
  from assms(2) have "\<And>i. i < 4 \<Longrightarrow> (all_headers @ utf16le S) ! i = all_headers ! i"
    by (simp add: nth_append)
  with assms(2,3) have n: "all_headers_length (all_headers @ utf16le S) = length all_headers"
    by (simp add: all_headers_length_def)
  have units: "utf16le_units (utf16le S) = concat (map utf16_encode S)"
    by (simp add: utf16le_def utf16le_units_bytes)
  have dec: "utf16_Decode (utf16le_units (utf16le S)) = S"
    using assms(4) by (simp add: units utf16_Decode_roundtrip)
  show ?thesis
  proof (cases "utf16le S = []")
    case True
    with dec have S: "S = []" by simp
    from n True have n': "all_headers_length all_headers = length all_headers" by simp
    from payload True have p': "?payload = all_headers" by simp
    show ?thesis
      by (simp add: GetBatchText_spec p' n' S go_string_def)
  next
    case False
    then show ?thesis
      by (simp add: GetBatchText_spec n payload dec)
  qed
qed

lemma utf16le_hi: "utf16le [0x68, 0x69] = [0x68, 0, 0x69, 0]"
  by (simp add: utf16le_def utf16_encode_def unit_bytes_def)

theorem C3_roundtrip_witness:
  "AssemblePayload
     \<lparr>Packets = [\<lparr>Header = \<lparr>Buffer = [1, 1, 0, 16, 0, 0, 1, 0]\<rparr>,
                  Payload = [4, 0, 0, 0, 0x68, 0, 0x69, 0]\<rparr>]\<rparr>
     = Inr ([4, 0, 0, 0] @ utf16le [0x68, 0x69]) \<and>
   4 \<le> length [4, 0, 0, 0 :: byte] \<and>
   le32 ([4, 0, 0, 0] ! 0) ([4, 0, 0, 0] ! 1) ([4, 0, 0, 0] ! 2) ([4, 0, 0, 0] ! 3)
     = length [4, 0, 0, 0 :: byte] \<and>
   list_all unicode_scalar [0x68, 0x69] \<and>
   GetBatchText
     \<lparr>Packets = [\<lparr>Header = \<lparr>Buffer = [1, 1, 0, 16, 0, 0, 1, 0]\<rparr>,
                  Payload = [4, 0, 0, 0, 0x68, 0, 0x69, 0]\<rparr>]\<rparr>
     = Inr [0x68, 0x69]"
proof -
  let ?m = "\<lparr>Packets = [\<lparr>Header = \<lparr>Buffer = [1, 1, 0, 16, 0, 0, 1, 0]\<rparr>,
                  Payload = [4, 0, 0, 0, 0x68, 0, 0x69, 0]\<rparr>]\<rparr>"
  have h1: "AssemblePayload ?m = Inr ([4, 0, 0, 0] @ utf16le [0x68, 0x69])"
    by (simp add: AssemblePayload_eq utf16le_hi)
  have h2: "4 \<le> length [4, 0, 0, 0 :: byte]" by simp
  have h3: "le32 ([4, 0, 0, 0] ! 0) ([4, 0, 0, 0] ! 1) ([4, 0, 0, 0] ! 2) ([4, 0, 0, 0] ! 3)
     = length [4, 0, 0, 0 :: byte]"
    by (simp add: le32_def)
  have h4: "list_all unicode_scalar [0x68, 0x69]"
    by (simp add: unicode_scalar_def)
  have g: "go_string [0x68, 0x69] = [0x68, 0x69]"
    by (simp add: go_string_def utf8_EncodeRune_def)
  from C3_roundtrip [OF h1 h2 h3 h4] h1 h2 h3 h4 g show ?thesis by simp
qed

theorem C2_GetBatchText_witness:
  "GetBatchText
     \<lparr>Packets = [\<lparr>Header = \<lparr>Buffer = [1, 0, 0, 14, 0, 0, 1, 0]\<rparr>,
                  Payload = [4, 0, 0, 0, 0x68, 0]\<rparr>,
                 \<lparr>Header = \<lparr>Buffer = [1, 1, 0, 11, 0, 0, 2, 0]\<rparr>,
                  Payload = [0x69, 0, 0x21]\<rparr>]\<rparr>
     = Inr [0x68, 0x69] \<and>
   GetBatchText
     \<lparr>Packets = [\<lparr>Header = \<lparr>Buffer = [1, 1, 0, 14, 0, 0, 1, 0]\<rparr>,
                  Payload = [9, 0, 0, 0, 0x68, 0]\<rparr>]\<rparr>
     = Inr []"
proof -
  have g: "go_string [0x68, 0x69] = [0x68, 0x69]"
    by (simp add: go_string_def utf8_EncodeRune_def)
  show ?thesis
    using C2_GetBatchText [of "\<lparr>Packets = [\<lparr>Header = \<lparr>Buffer = [1, 0, 0, 14, 0, 0, 1, 0]\<rparr>,
                  Payload = [4, 0, 0, 0, 0x68, 0]\<rparr>,
                 \<lparr>Header = \<lparr>Buffer = [1, 1, 0, 11, 0, 0, 2, 0]\<rparr>,
                  Payload = [0x69, 0, 0x21]\<rparr>]\<rparr>"]
      C2_GetBatchText [of "\<lparr>Packets = [\<lparr>Header = \<lparr>Buffer = [1, 1, 0, 14, 0, 0, 1, 0]\<rparr>,
                  Payload = [9, 0, 0, 0, 0x68, 0]\<rparr>]\<rparr>"]
    by (simp add: Let_def all_headers_length_def le32_def g surr1_def surr3_def)
qed

section \<open>Properties of the ingress loop\<close>

lemma notifications_append [simp]:
  "notifications (es @ es') = notifications es @ notifications es'"
  by (simp add: notifications_def)

lemma trace_publish [simp]: "trace (publish e w) = trace w @ [e]"
  by (simp add: publish_def)

lemma ClientBridgeSocket_Read_notifications:
  "ClientBridgeSocket_Read k w = (r, w1) \<Longrightarrow> notifications (trace w1) = notifications (trace w)"
  by (auto simp: ClientBridgeSocket_Read_def notifications_def split: list.splits)

lemma BridgeSQLSocket_Write_notifications:
  "BridgeSQLSocket_Write b w = (r, w1) \<Longrightarrow> notifications (trace w1) = notifications (trace w)"
  by (auto simp: BridgeSQLSocket_Write_def notifications_def split: option.splits nat.splits)

lemma ingress_read_payload_notifications:
  "ingress_read_payload v hi w = (r, w1) \<Longrightarrow> notifications (trace w1) = notifications (trace w)"
  unfolding ingress_read_payload_def
  by (auto split: sum.splits prod.splits dest: ClientBridgeSocket_Read_notifications)

lemma ingress_read_payload_vars:
  "ingress_read_payload v hi w = (Inr (v', received, err), w1) \<Longrightarrow>
     tdsMessage v' = tdsMessage v \<and> bHeader v' = bHeader v"
  unfolding ingress_read_payload_def
  by (auto split: sum.splits prod.splits)

lemma ingress_receive_notifications:
  "ingress_receive v w = (r, w1) \<Longrightarrow> notifications (trace w1) = notifications (trace w)"
  unfolding ingress_receive_def Let_def
  by (auto simp: notifications_def [of "[BridgeException ClientBridge]"]
      split: sum.splits prod.splits if_splits
      dest!: ClientBridgeSocket_Read_notifications ingress_read_payload_notifications)

lemma ingress_receive_vars:
  "ingress_receive v w = (Inr (v', header, received), w1) \<Longrightarrow>
     tdsMessage v' = tdsMessage v \<and> header = NewTDSHeader (bHeader v')"
  unfolding ingress_receive_def Let_def
  by (auto split: sum.splits prod.splits if_splits dest!: ingress_read_payload_vars)


lemma Packets_Create:
  "CreateTDSMessageFromFirstPacket p = Inr msg \<Longrightarrow> Packets (base_of msg) = [p]"
  by (auto simp: CreateTDSMessageFromFirstPacket_def NewBaseTDSMessageWithPacket_def
      split: sum.splits if_splits)

lemma Packets_AddPacket:
  "Packets (base_of (TDSMessage_AddPacket m p)) = Packets (base_of m) @ [p]"
  by (cases m) (simp_all add: AddPacket_def)

lemma Create_NewTDSHeader:
  "Header p = NewTDSHeader b \<Longrightarrow> \<exists>msg. CreateTDSMessageFromFirstPacket p = Inr msg"
  by (simp add: CreateTDSMessageFromFirstPacket_def TDSHeader_Type_NewTDSHeader)

lemma Header_NewTDSPacket:
  "NewTDSPacket h pl n = Inr p \<Longrightarrow> Header p = NewTDSHeader h"
  by (auto simp: NewTDSPacket_def Let_def split: sum.splits)

lemma framed_other:
  "framed es pend \<Longrightarrow> \<not> is_notification e \<Longrightarrow> framed (es @ [e]) pend"
  by (simp add: framed_def notifications_def)

lemma framed_same:
  "framed es pend \<Longrightarrow> notifications es' = notifications es \<Longrightarrow> framed es' pend"
  by (simp add: framed_def)

lemma framed_packet:
  assumes "framed es pend" and "\<not> ends_message p"
  shows "framed (es @ [TDSPacketReceived p]) (pend @ [p])"
  using assms by (auto simp: framed_def notifications_def)

lemma framed_message:
  assumes "framed es pend" and "ends_message p" and "Packets (base_of msg) = pend @ [p]"
  shows "framed (es @ [TDSPacketReceived p, TDSMessageReceived msg]) []"
proof -
  from assms(1) obtain msgs
    where n: "notifications es = concat (map announce msgs) @ map TDSPacketReceived pend"
      and wf: "list_all well_framed msgs"
      and np: "list_all (\<lambda>p. \<not> ends_message p) pend"
    by (auto simp: framed_def)
  have "well_framed msg"
    using assms(2,3) np by (simp add: well_framed_def)
  moreover have "notifications (es @ [TDSPacketReceived p, TDSMessageReceived msg])
      = concat (map announce (msgs @ [msg])) @ map TDSPacketReceived []"
    using n assms(3) by (simp add: announce_def notifications_def)
  ultimately show ?thesis
    unfolding framed_def using wf by (intro exI [of _ "msgs @ [msg]"]) simp
qed

lemma ingress_assemble_framed:
  assumes "ingress_assemble v header w = (r, w1)"
      and "header = NewTDSHeader (bHeader v)"
      and "framed (trace w) (pending_packets v)"
  shows "(\<exists>pend. framed (trace w1) pend) \<and>
         (\<forall>v'. r = Inr v' \<longrightarrow> framed (trace w1) (pending_packets v'))"
proof (cases "TDSHeader_PayloadSize header")
  case (Inl e)
  with assms show ?thesis by (auto simp: ingress_assemble_def)
next
  case (Inr payloadSize)
  show ?thesis
  proof (cases "NewTDSPacket (bHeader v) (bBuffer v) payloadSize")
    case (Inl e)
    with Inr assms show ?thesis by (auto simp: ingress_assemble_def)
  next
    case pk: (Inr p)
    then have hp: "Header p = header"
      using assms(2) by (simp add: Header_NewTDSPacket)
    obtain s where s: "TDSHeader_StatusBitMask header = Inr s"
      using assms(2) by (simp add: TDSHeader_StatusBitMask_NewTDSHeader)
    have em: "ends_message p \<longleftrightarrow> (s AND END_OF_MESSAGE) = END_OF_MESSAGE"
      by (simp add: ends_message_def hp s)
    obtain msg where msg:
      "(case tdsMessage v of None \<Rightarrow> CreateTDSMessageFromFirstPacket p
        | Some m \<Rightarrow> Inr (TDSMessage_AddPacket m p)) = Inr msg"
      using Create_NewTDSHeader [of p "bHeader v"] hp assms(2)
      by (cases "tdsMessage v") auto
    then have pm: "Packets (base_of msg) = pending_packets v @ [p]"
      by (cases "tdsMessage v")
        (auto simp: pending_packets_def Packets_Create Packets_AddPacket)
    show ?thesis
    proof (cases "(s AND END_OF_MESSAGE) = END_OF_MESSAGE")
      case True
      with assms(1) Inr pk msg s
      have r: "r = Inr (v\<lparr>tdsMessage := None\<rparr>)"
        and w1: "trace w1 = trace w @ [TDSPacketReceived p, TDSMessageReceived msg]"
        by (auto simp: ingress_assemble_def Let_def)
      from framed_message [OF assms(3) _ pm] True em
      have "framed (trace w1) []" by (simp add: w1)
      then show ?thesis by (auto simp: r pending_packets_def)
    next
      case False
      with assms(1) Inr pk msg s
      have r: "r = Inr (v\<lparr>tdsMessage := Some msg\<rparr>)"
        and w1: "trace w1 = trace w @ [TDSPacketReceived p]"
        by (auto simp: ingress_assemble_def Let_def)
      from framed_packet [OF assms(3)] False em
      have "framed (trace w1) (pending_packets v @ [p])" by (simp add: w1)
      then show ?thesis by (auto simp: r pending_packets_def pm)
    qed
  qed
qed

lemma ingress_assemble_bHeader:
  "ingress_assemble v header w = (Inr v', w1) \<Longrightarrow> bHeader v' = bHeader v"
  unfolding ingress_assemble_def Let_def
  by (auto split: sum.splits if_splits)

lemma ingress_forward_notifications:
  "ingress_forward v header received w = (r, w1) \<Longrightarrow>
     notifications (trace w1) = notifications (trace w)"
  unfolding ingress_forward_def
  by (auto simp: notifications_def [of "[BridgeException ClientBridge]"]
      split: sum.splits prod.splits if_splits dest!: BridgeSQLSocket_Write_notifications)

lemma ingress_forward_vars:
  "ingress_forward v header received w = (Inr v', w1) \<Longrightarrow> v' = v"
  unfolding ingress_forward_def
  by (auto split: sum.splits prod.splits if_splits)

lemma ingress_iteration_framed:
  assumes "ingress_iteration v w = (r, w')"
      and "framed (trace w) (pending_packets v)"
  shows "(\<exists>pend. framed (trace w') pend) \<and>
         (\<forall>v'. r = Inr v' \<longrightarrow> framed (trace w') (pending_packets v'))"
proof (cases "ingress_receive v w")
  case (Pair r1 w1)
  have n1: "notifications (trace w1) = notifications (trace w)"
    by (rule ingress_receive_notifications [OF Pair])
  show ?thesis
  proof (cases r1)
    case (Inl out)
    with Pair assms(1) have "w' = w1" "r = Inl out"
      by (auto simp: ingress_iteration_def)
    with framed_same [OF assms(2) n1] show ?thesis by auto
  next
    case (Inr x)
    then obtain v1 header received where x: "r1 = Inr (v1, header, received)"
      by (cases x) auto
    from ingress_receive_vars [OF Pair [unfolded x]]
    have tm: "tdsMessage v1 = tdsMessage v" and hd: "header = NewTDSHeader (bHeader v1)"
      by auto
    have f1: "framed (trace w1) (pending_packets v1)"
      using framed_same [OF assms(2) n1] tm by (simp add: pending_packets_def)
    obtain r2 w2 where a: "ingress_assemble v1 header w1 = (r2, w2)"
      by (cases "ingress_assemble v1 header w1") auto
    note fa = ingress_assemble_framed [OF a hd f1]
    show ?thesis
    proof (cases r2)
      case (Inl out)
      with Pair x a assms(1) have "w' = w2" "r = Inl out"
        by (auto simp: ingress_iteration_def)
      with fa show ?thesis by auto
    next
      case (Inr v2)
      with Pair x a assms(1) have f: "ingress_forward v2 header received w2 = (r, w')"
        by (auto simp: ingress_iteration_def)
      from fa Inr have f2: "framed (trace w2) (pending_packets v2)" by simp
      have f3: "framed (trace w') (pending_packets v2)"
        using framed_same [OF f2 ingress_forward_notifications [OF f]] .
      then show ?thesis using ingress_forward_vars [of v2 header received w2 _ w'] f
        by auto
    qed
  qed
qed

lemma ingress_loop_framed:
  "framed (trace w) (pending_packets v) \<Longrightarrow>
     \<exists>pend. framed (trace (snd (ingress_loop v w))) pend"
proof (induction v w rule: ingress_loop.induct)
  case (1 v w)
  obtain r w' where it: "ingress_iteration v w = (r, w')"
    by (cases "ingress_iteration v w") auto
  note fr = ingress_iteration_framed [OF it "1.prems"]
  show ?case
  proof (cases r)
    case (Inl out)
    with it fr show ?thesis by (subst ingress_loop.simps) simp
  next
    case (Inr v')
    with fr have "framed (trace w') (pending_packets v')" by simp
    from "1.IH" [OF it [symmetric] Inr this] it Inr
    show ?thesis by (subst ingress_loop.simps) simp
  qed
qed

text \<open>
  Claim C4. In every run of the ingress loop, whatever the client sends and whenever the
  upstream socket fails, the notifications published are the announcements of well-framed
  messages, one after the other, followed by the packet-received events of an unfinished
  message. So each message assembled from the client stream gets exactly one
  message-received notification, published after the packet-received notification of its
  last packet and before the packet-received notification of any later packet.
\<close>

theorem C4_one_notification_per_message:
  "\<exists>msgs pending.
     notifications (trace (snd (clientBridgeToSQLServer
        \<lparr>client_pending = segments, upstream_writes_left = budget, trace = []\<rparr>)))
       = concat (map announce msgs) @ map TDSPacketReceived pending \<and>
     list_all well_framed msgs \<and> list_all (\<lambda>p. \<not> ends_message p) pending"
proof -
  let ?w = "\<lparr>client_pending = segments, upstream_writes_left = budget, trace = []\<rparr>"
  let ?v = "\<lparr>bBuffer = [], bHeader = replicate (nat HEADER_SIZE) 0, tdsMessage = None\<rparr>"
  have "framed (trace ?w) (pending_packets ?v)"
    unfolding framed_def
    by (intro exI [of _ "[]"]) (simp add: pending_packets_def notifications_def)
  from ingress_loop_framed [OF this] obtain pend
    where "framed (trace (snd (ingress_loop ?v ?w))) pend" ..
  then have "framed (trace (snd (clientBridgeToSQLServer ?w))) pend"
    by (auto simp: clientBridgeToSQLServer_def framed_def notifications_def
        split: prod.splits)
  then show ?thesis unfolding framed_def by blast
qed

subsection \<open>Runs of the loop on concrete client streams\<close>

lemmas ingress_eval = ingress_iteration_def ingress_receive_def ingress_read_payload_def
  ingress_assemble_def ingress_forward_def ClientBridgeSocket_Read_def BridgeSQLSocket_Write_def
  publish_def NewTDSHeader_lit TDSHeader_LengthIncludingHeader_def TDSHeader_Type_def
  TDSHeader_PayloadSize_def TDSHeader_StatusBitMask_def go_index_def go_make_def go_copy_def
  go_slice_to_def HEADER_SIZE_def HeaderType_23_def NewTDSPacket_def
  CreateTDSMessageFromFirstPacket_def NewBaseTDSMessageWithPacket_def SQLBatch_def RPC_def
  AttentionSignal_def END_OF_MESSAGE_def AddPacket_def Let_def

lemma replicate_8_0: "replicate 8 (0::byte) = [0, 0, 0, 0, 0, 0, 0, 0]"
  by (simp add: numeral_eq_Suc)

lemma ingress_iteration_eof:
  "client_pending w = [] \<Longrightarrow>
     ingress_iteration v w =
       (Inl Returned,
        w\<lparr>trace := trace w @ [ClientRead (length (bHeader v)) [] True,
                                BridgeException ClientBridge]\<rparr>)"
  by (simp add: ingress_iteration_def ingress_receive_def ClientBridgeSocket_Read_def
      publish_def)

lemma two_packets_iteration_1:
  "ingress_iteration \<lparr>bBuffer = [], bHeader = replicate 8 0, tdsMessage = None\<rparr>
     \<lparr>client_pending = [[1, 0, 0, 10, 0, 0, 1, 0], [0x41, 0x42], [1, 1, 0, 9, 0, 0, 2, 0], [0x43]],
      upstream_writes_left = None, trace = []\<rparr>
   = (Inr \<lparr>bBuffer = 0x41 # 0x42 # replicate 4094 0, bHeader = [1, 0, 0, 10, 0, 0, 1, 0],
            tdsMessage = Some (SQLBatchMessage
              \<lparr>Packets = [\<lparr>Header = \<lparr>Buffer = [1, 0, 0, 10, 0, 0, 1, 0]\<rparr>,
                           Payload = [0x41, 0x42]\<rparr>]\<rparr>)\<rparr>,
      \<lparr>client_pending = [[1, 1, 0, 9, 0, 0, 2, 0], [0x43]], upstream_writes_left = None,
        trace =
          [ClientRead 8 [1, 0, 0, 10, 0, 0, 1, 0] False,
           ClientRead 2 [0x41, 0x42] False,
           TDSPacketReceived
             \<lparr>Header = \<lparr>Buffer = [1, 0, 0, 10, 0, 0, 1, 0]\<rparr>, Payload = [0x41, 0x42]\<rparr>,
           UpstreamWrite [1, 0, 0, 10, 0, 0, 1, 0] False,
           UpstreamWrite [0x41, 0x42] False]\<rparr>)"
  by (simp add: ingress_eval replicate_8_0)

lemma two_packets_iteration_2:
  "ingress_iteration
     \<lparr>bBuffer = 0x41 # 0x42 # replicate 4094 0, bHeader = [1, 0, 0, 10, 0, 0, 1, 0],
       tdsMessage = Some (SQLBatchMessage
         \<lparr>Packets = [\<lparr>Header = \<lparr>Buffer = [1, 0, 0, 10, 0, 0, 1, 0]\<rparr>,
                      Payload = [0x41, 0x42]\<rparr>]\<rparr>)\<rparr>
     \<lparr>client_pending = [[1, 1, 0, 9, 0, 0, 2, 0], [0x43]], upstream_writes_left = None,
       trace = es\<rparr>
   = (Inr \<lparr>bBuffer = 0x43 # 0x42 # replicate 4094 0, bHeader = [1, 1, 0, 9, 0, 0, 2, 0],
            tdsMessage = None\<rparr>,
      \<lparr>client_pending = [], upstream_writes_left = None,
        trace = es @
          [ClientRead 8 [1, 1, 0, 9, 0, 0, 2, 0] False,
           ClientRead 1 [0x43] False,
           TDSPacketReceived
             \<lparr>Header = \<lparr>Buffer = [1, 1, 0, 9, 0, 0, 2, 0]\<rparr>, Payload = [0x43]\<rparr>,
           TDSMessageReceived
             (SQLBatchMessage
               \<lparr>Packets = [\<lparr>Header = \<lparr>Buffer = [1, 0, 0, 10, 0, 0, 1, 0]\<rparr>,
                            Payload = [0x41, 0x42]\<rparr>,
                           \<lparr>Header = \<lparr>Buffer = [1, 1, 0, 9, 0, 0, 2, 0]\<rparr>,
                            Payload = [0x43]\<rparr>]\<rparr>),
           UpstreamWrite [1, 1, 0, 9, 0, 0, 2, 0] False,
           UpstreamWrite [0x43] False]\<rparr>)"
  by (simp add: ingress_eval)

lemma two_packets_notifications:
  "notifications (trace (snd (clientBridgeToSQLServer
     \<lparr>client_pending = [[1, 0, 0, 10, 0, 0, 1, 0], [0x41, 0x42], [1, 1, 0, 9, 0, 0, 2, 0], [0x43]],
      upstream_writes_left = None, trace = []\<rparr>)))
   = announce (SQLBatchMessage
       \<lparr>Packets = [\<lparr>Header = \<lparr>Buffer = [1, 0, 0, 10, 0, 0, 1, 0]\<rparr>, Payload = [0x41, 0x42]\<rparr>,
                   \<lparr>Header = \<lparr>Buffer = [1, 1, 0, 9, 0, 0, 2, 0]\<rparr>, Payload = [0x43]\<rparr>]\<rparr>)"
  unfolding clientBridgeToSQLServer_def
  apply (simp add: HEADER_SIZE_def)
  apply (subst ingress_loop.simps)
  apply (simp add: two_packets_iteration_1)
  apply (subst ingress_loop.simps)
  apply (simp add: two_packets_iteration_2)
  apply (subst ingress_loop.simps)
  apply (simp add: ingress_iteration_eof publish_def notifications_def announce_def)
  done

theorem C4_one_notification_per_message_witness:
  "notifications (trace (snd (clientBridgeToSQLServer
     \<lparr>client_pending = [[1, 0, 0, 10, 0, 0, 1, 0], [0x41, 0x42], [1, 1, 0, 9, 0, 0, 2, 0], [0x43]],
      upstream_writes_left = None, trace = []\<rparr>)))
   = announce (SQLBatchMessage
       \<lparr>Packets = [\<lparr>Header = \<lparr>Buffer = [1, 0, 0, 10, 0, 0, 1, 0]\<rparr>, Payload = [0x41, 0x42]\<rparr>,
                   \<lparr>Header = \<lparr>Buffer = [1, 1, 0, 9, 0, 0, 2, 0]\<rparr>, Payload = [0x43]\<rparr>]\<rparr>) \<and>
   well_framed (SQLBatchMessage
       \<lparr>Packets = [\<lparr>Header = \<lparr>Buffer = [1, 0, 0, 10, 0, 0, 1, 0]\<rparr>, Payload = [0x41, 0x42]\<rparr>,
                   \<lparr>Header = \<lparr>Buffer = [1, 1, 0, 9, 0, 0, 2, 0]\<rparr>, Payload = [0x43]\<rparr>]\<rparr>) \<and>
   (\<exists>msgs pending.
     notifications (trace (snd (clientBridgeToSQLServer
       \<lparr>client_pending = [[1, 0, 0, 10, 0, 0, 1, 0], [0x41, 0x42], [1, 1, 0, 9, 0, 0, 2, 0], [0x43]],
        upstream_writes_left = None, trace = []\<rparr>)))
       = concat (map announce msgs) @ map TDSPacketReceived pending \<and>
     list_all well_framed msgs \<and> list_all (\<lambda>p. \<not> ends_message p) pending)"
proof -
  have wf: "well_framed (SQLBatchMessage
       \<lparr>Packets = [\<lparr>Header = \<lparr>Buffer = [1, 0, 0, 10, 0, 0, 1, 0]\<rparr>, Payload = [0x41, 0x42]\<rparr>,
                   \<lparr>Header = \<lparr>Buffer = [1, 1, 0, 9, 0, 0, 2, 0]\<rparr>, Payload = [0x43]\<rparr>]\<rparr>)"
    by (simp add: well_framed_def ends_message_def TDSHeader_StatusBitMask_def go_index_def
        END_OF_MESSAGE_def)
  from two_packets_notifications wf
    C4_one_notification_per_message [of "[[1, 0, 0, 10, 0, 0, 1, 0], [0x41, 0x42],
      [1, 1, 0, 9, 0, 0, 2, 0], [0x43]]" None]
  show ?thesis by (intro conjI)
qed

lemma short_read_iteration:
  "ingress_iteration \<lparr>bBuffer = [], bHeader = replicate 8 0, tdsMessage = None\<rparr>
     \<lparr>client_pending = [[1, 1, 0, 12, 0, 0, 1, 0], [0xAA, 0xBB]],
      upstream_writes_left = None, trace = []\<rparr>
   = (Inr \<lparr>bBuffer = 0xAA # 0xBB # replicate 4094 0, bHeader = [1, 1, 0, 12, 0, 0, 1, 0],
            tdsMessage = None\<rparr>,
      \<lparr>client_pending = [], upstream_writes_left = None,
        trace =
          [ClientRead 8 [1, 1, 0, 12, 0, 0, 1, 0] False,
           ClientRead 4 [0xAA, 0xBB] False,
           TDSPacketReceived
             \<lparr>Header = \<lparr>Buffer = [1, 1, 0, 12, 0, 0, 1, 0]\<rparr>, Payload = [0xAA, 0xBB, 0, 0]\<rparr>,
           TDSMessageReceived
             (SQLBatchMessage
               \<lparr>Packets = [\<lparr>Header = \<lparr>Buffer = [1, 1, 0, 12, 0, 0, 1, 0]\<rparr>,
                            Payload = [0xAA, 0xBB, 0, 0]\<rparr>]\<rparr>),
           UpstreamWrite [1, 1, 0, 12, 0, 0, 1, 0] False,
           UpstreamWrite [0xAA, 0xBB, 0, 0] False]\<rparr>)"
  by (simp add: ingress_eval replicate_8_0) (simp add: numeral_2_eq_2)

text \<open>
  Claim C1. The claim says that the bytes written upstream for a packet are exactly the
  bytes read for it. The code breaks this when the payload read returns fewer bytes than
  the header declares: for a type other than 23 it writes \<^verbatim>\<open>bBuffer[:header.PayloadSize()]\<close>
  whatever \<^verbatim>\<open>received\<close> is. Here the client sends the header \<^verbatim>\<open>01 01 00 0C 00 00 01 00\<close>
  (payload size 4) and then only the two bytes \<^verbatim>\<open>AA BB\<close> before it closes: ten bytes are
  read, and twelve are written, the last two being the zero bytes the buffer held.
\<close>

theorem C1_short_read_forwards_stale_bytes:
  "clientBridgeToSQLServer
     \<lparr>client_pending = [[1, 1, 0, 12, 0, 0, 1, 0], [0xAA, 0xBB]],
      upstream_writes_left = None, trace = []\<rparr>
   = (Returned,
      \<lparr>client_pending = [], upstream_writes_left = None,
        trace =
          [ClientRead 8 [1, 1, 0, 12, 0, 0, 1, 0] False,
           ClientRead 4 [0xAA, 0xBB] False,
           TDSPacketReceived
             \<lparr>Header = \<lparr>Buffer = [1, 1, 0, 12, 0, 0, 1, 0]\<rparr>, Payload = [0xAA, 0xBB, 0, 0]\<rparr>,
           TDSMessageReceived
             (SQLBatchMessage
               \<lparr>Packets = [\<lparr>Header = \<lparr>Buffer = [1, 1, 0, 12, 0, 0, 1, 0]\<rparr>,
                            Payload = [0xAA, 0xBB, 0, 0]\<rparr>]\<rparr>),
           UpstreamWrite [1, 1, 0, 12, 0, 0, 1, 0] False,
           UpstreamWrite [0xAA, 0xBB, 0, 0] False,
           ClientRead 8 [] True,
           BridgeException ClientBridge,
           ConnectionDisconnected ClientBridge,
           SocketClosed BridgeSQL]\<rparr>) \<and>
   client_bytes (trace (snd (clientBridgeToSQLServer
     \<lparr>client_pending = [[1, 1, 0, 12, 0, 0, 1, 0], [0xAA, 0xBB]],
      upstream_writes_left = None, trace = []\<rparr>)))
     = [1, 1, 0, 12, 0, 0, 1, 0, 0xAA, 0xBB] \<and>
   upstream_bytes (trace (snd (clientBridgeToSQLServer
     \<lparr>client_pending = [[1, 1, 0, 12, 0, 0, 1, 0], [0xAA, 0xBB]],
      upstream_writes_left = None, trace = []\<rparr>)))
     = [1, 1, 0, 12, 0, 0, 1, 0, 0xAA, 0xBB, 0, 0]"
proof -
  have "ingress_loop \<lparr>bBuffer = [], bHeader = replicate 8 0, tdsMessage = None\<rparr>
     \<lparr>client_pending = [[1, 1, 0, 12, 0, 0, 1, 0], [0xAA, 0xBB]],
      upstream_writes_left = None, trace = []\<rparr>
   = (Returned,
      \<lparr>client_pending = [], upstream_writes_left = None,
        trace =
          [ClientRead 8 [1, 1, 0, 12, 0, 0, 1, 0] False,
           ClientRead 4 [0xAA, 0xBB] False,
           TDSPacketReceived
             \<lparr>Header = \<lparr>Buffer = [1, 1, 0, 12, 0, 0, 1, 0]\<rparr>, Payload = [0xAA, 0xBB, 0, 0]\<rparr>,
           TDSMessageReceived
             (SQLBatchMessage
               \<lparr>Packets = [\<lparr>Header = \<lparr>Buffer = [1, 1, 0, 12, 0, 0, 1, 0]\<rparr>,
                            Payload = [0xAA, 0xBB, 0, 0]\<rparr>]\<rparr>),
           UpstreamWrite [1, 1, 0, 12, 0, 0, 1, 0] False,
           UpstreamWrite [0xAA, 0xBB, 0, 0] False,
           ClientRead 8 [] True,
           BridgeException ClientBridge]\<rparr>)"
    apply (subst ingress_loop.simps)
    apply (simp add: short_read_iteration)
    apply (subst ingress_loop.simps)
    apply (simp add: ingress_iteration_eof)
    done
  then show ?thesis
    by (simp add: clientBridgeToSQLServer_def HEADER_SIZE_def publish_def)
qed

lemma negative_size_iteration:
  "ingress_iteration \<lparr>bBuffer = [], bHeader = replicate 8 0, tdsMessage = None\<rparr>
     \<lparr>client_pending = [[23, 1, 0, 4, 0, 0, 1, 0], [0xAA, 0xBB]],
      upstream_writes_left = None, trace = []\<rparr>
   = (Inl (Panicked MakesliceLenOutOfRange),
      \<lparr>client_pending = [], upstream_writes_left = None,
        trace = [ClientRead 8 [23, 1, 0, 4, 0, 0, 1, 0] False,
                 ClientRead 4088 [0xAA, 0xBB] False]\<rparr>)"
  by (simp add: ingress_eval replicate_8_0)

text \<open>
  Claim C7. The claim says that for the header type 23 the bytes read are forwarded
  whatever payload size the header declares. Here the header \<^verbatim>\<open>17 01 00 04 00 00 01 00\<close>
  (type 23, declared length 4, payload size \<open>-4\<close>) is followed by the bytes \<^verbatim>\<open>AA BB\<close>: the
  loop asks for 4088 bytes and reads the two, then \<^verbatim>\<open>NewTDSPacket\<close> panics on the negative
  size, and nothing is written upstream.
\<close>

theorem C7_type_23_short_header_panics:
  "clientBridgeToSQLServer
     \<lparr>client_pending = [[23, 1, 0, 4, 0, 0, 1, 0], [0xAA, 0xBB]],
      upstream_writes_left = None, trace = []\<rparr>
   = (Panicked MakesliceLenOutOfRange,
      \<lparr>client_pending = [], upstream_writes_left = None,
        trace = [ClientRead 8 [23, 1, 0, 4, 0, 0, 1, 0] False,
                 ClientRead 4088 [0xAA, 0xBB] False,
                 ConnectionDisconnected ClientBridge,
                 SocketClosed BridgeSQL]\<rparr>) \<and>
   upstream_bytes (trace (snd (clientBridgeToSQLServer
     \<lparr>client_pending = [[23, 1, 0, 4, 0, 0, 1, 0], [0xAA, 0xBB]],
      upstream_writes_left = None, trace = []\<rparr>))) = []"
proof -
  have "ingress_loop \<lparr>bBuffer = [], bHeader = replicate 8 0, tdsMessage = None\<rparr>
     \<lparr>client_pending = [[23, 1, 0, 4, 0, 0, 1, 0], [0xAA, 0xBB]],
      upstream_writes_left = None, trace = []\<rparr>
   = (Panicked MakesliceLenOutOfRange,
      \<lparr>client_pending = [], upstream_writes_left = None,
        trace = [ClientRead 8 [23, 1, 0, 4, 0, 0, 1, 0] False,
                 ClientRead 4088 [0xAA, 0xBB] False]\<rparr>)"
    by (subst ingress_loop.simps) (simp add: negative_size_iteration)
  then show ?thesis
    by (simp add: clientBridgeToSQLServer_def HEADER_SIZE_def publish_def)
qed


subsection \<open>Client streams that arrive in whole packets\<close>

lemma upstream_bytes_append [simp]:
  "upstream_bytes (es @ es') = upstream_bytes es @ upstream_bytes es'"
  by (induction es rule: upstream_bytes.induct) auto

lemma client_bytes_append [simp]:
  "client_bytes (es @ es') = client_bytes es @ client_bytes es'"
  by (induction es rule: client_bytes.induct) auto

lemma ingress_receive_whole:
  assumes wp: "whole_packet (h, b)"
      and hl: "length (bHeader v) = 8"
      and pend: "client_pending w = (if b = [] then [h] else [h, b]) @ rest"
  shows "\<exists>buf. ingress_receive v w =
           (Inr (v\<lparr>bHeader := h, bBuffer := b @ drop (length b) buf\<rparr>, \<lparr>Buffer = h\<rparr>,
                 int (length b)),
            w\<lparr>client_pending := rest,
              trace := trace w @ ClientRead 8 h False #
                (if b = [] then []
                 else [ClientRead (if wire_type h = 23 then 4088 else length b) b False])\<rparr>) \<and>
         4096 \<le> length buf \<and> length b \<le> length buf"
proof -
  from wp have h8: "length h = 8" and ps0: "0 \<le> wire_payload_size h"
    by (auto simp: whole_packet_def)
  define lih where "lih = uint (h ! 2) * 0x100 + uint (h ! 3)"
  define buf where "buf = (if bBuffer v = [] \<or> int (length (bBuffer v)) < max 0x1000 (lih + 1)
                           then replicate (nat (max 0x1000 (lih + 1))) 0 else bBuffer v)"
  have ps: "wire_payload_size h = lih - 8" by (simp add: wire_payload_size_def lih_def)
  have lbuf: "int (length buf) \<ge> max 0x1000 (lih + 1)"
    by (auto simp: buf_def)
  then have b4096: "4096 \<le> length buf" by simp
  have lb: "length b \<le> length buf"
    using wp lbuf ps by (auto simp: whole_packet_def split: if_splits)
  have hdr: "TDSHeader_LengthIncludingHeader \<lparr>Buffer = h\<rparr> = Inr lih"
    "TDSHeader_Type \<lparr>Buffer = h\<rparr> = Inr (wire_type h)"
    "TDSHeader_PayloadSize \<lparr>Buffer = h\<rparr> = Inr (wire_payload_size h)"
    using h8 by (simp_all add: TDSHeader_LengthIncludingHeader_def TDSHeader_Type_def
        TDSHeader_PayloadSize_def go_index_def lih_def wire_type_def wire_payload_size_def
        HEADER_SIZE_def)
  have hne: "h \<noteq> []" using h8 by auto
  have bufc: "bBuffer v = [] \<or> int (length (bBuffer v)) < max 4096 (lih + 1) \<Longrightarrow>
      buf = replicate (nat (max 4096 (lih + 1))) 0"
    and bufn: "\<not> (bBuffer v = [] \<or> int (length (bBuffer v)) < max 4096 (lih + 1)) \<Longrightarrow>
      buf = bBuffer v"
    by (simp_all add: buf_def)
  have "ingress_receive v w =
           (Inr (v\<lparr>bHeader := h, bBuffer := b @ drop (length b) buf\<rparr>, \<lparr>Buffer = h\<rparr>,
                 int (length b)),
            w\<lparr>client_pending := rest,
              trace := trace w @ ClientRead 8 h False #
                (if b = [] then []
                 else [ClientRead (if wire_type h = 23 then 4088 else length b) b False])\<rparr>)"
  proof (cases "b = []")
    case True
    with wp have nt: "wire_type h \<noteq> 23" and z: "wire_payload_size h = 0"
      by (auto simp: whole_packet_def split: if_splits)
    show ?thesis
    proof (cases "bBuffer v = [] \<or> int (length (bBuffer v)) < max 4096 (lih + 1)")
      case c: True
      show ?thesis
        using True pend h8 hl nt z c bufc [OF c] hne
        by (simp add: ingress_receive_def ClientBridgeSocket_Read_def publish_def go_copy_def
            NewTDSHeader_8 hdr Let_def HeaderType_23_def go_make_def)
    next
      case c: False
      show ?thesis
        using True pend h8 hl nt z c bufn [OF c] hne
        by (simp add: ingress_receive_def ClientBridgeSocket_Read_def publish_def go_copy_def
            NewTDSHeader_8 hdr Let_def HeaderType_23_def go_make_def)
    qed
  next
    case False
    show ?thesis
    proof (cases "wire_type h = 23")
      case True
      with wp have l: "length b \<le> 4088" by (auto simp: whole_packet_def)
      show ?thesis
      proof (cases "bBuffer v = [] \<or> int (length (bBuffer v)) < max 4096 (lih + 1)")
        case c: True
        show ?thesis
          using False True pend h8 hl b4096 lb l c bufc [OF c] hne
          by (simp add: ingress_receive_def ingress_read_payload_def ClientBridgeSocket_Read_def
              publish_def go_copy_def go_slice_to_def NewTDSHeader_8 hdr Let_def
              HeaderType_23_def HEADER_SIZE_def go_make_def)
      next
        case c: False
        show ?thesis
          using False True pend h8 hl b4096 lb l c bufn [OF c] hne
          by (simp add: ingress_receive_def ingress_read_payload_def ClientBridgeSocket_Read_def
              publish_def go_copy_def go_slice_to_def NewTDSHeader_8 hdr Let_def
              HeaderType_23_def HEADER_SIZE_def go_make_def)
      qed
    next
      case nt: False
      with wp have lbp: "int (length b) = wire_payload_size h"
        by (auto simp: whole_packet_def)
      from False have "0 < length b" by simp
      with lbp have pos: "0 < wire_payload_size h" by linarith
      show ?thesis
      proof (cases "bBuffer v = [] \<or> int (length (bBuffer v)) < max 4096 (lih + 1)")
        case c: True
        show ?thesis
          using False nt pend h8 hl lb lbp [symmetric] pos c bufc [OF c] hne
          by (simp add: ingress_receive_def ingress_read_payload_def ClientBridgeSocket_Read_def
              publish_def go_copy_def go_slice_to_def NewTDSHeader_8 hdr Let_def
              HeaderType_23_def go_make_def)
      next
        case c: False
        show ?thesis
          using False nt pend h8 hl lb lbp [symmetric] pos c bufn [OF c] hne
          by (simp add: ingress_receive_def ingress_read_payload_def ClientBridgeSocket_Read_def
              publish_def go_copy_def go_slice_to_def NewTDSHeader_8 hdr Let_def
              HeaderType_23_def go_make_def)
      qed
    qed
  qed
  with b4096 lb show ?thesis by blast
qed


lemma ingress_assemble_whole:
  assumes "header = NewTDSHeader (bHeader v)"
      and "TDSHeader_PayloadSize header = Inr ps" and "0 \<le> ps"
  shows "\<exists>v' es. ingress_assemble v header w = (Inr v', w\<lparr>trace := trace w @ es\<rparr>) \<and>
           bHeader v' = bHeader v \<and> bBuffer v' = bBuffer v \<and>
           upstream_bytes es = [] \<and> client_bytes es = []"
proof -
  obtain p where p: "NewTDSPacket (bHeader v) (bBuffer v) ps = Inr p"
    using assms(3) by (simp add: NewTDSPacket_def go_make_def Let_def)
  then have hp: "Header p = header"
    using assms(1) by (simp add: Header_NewTDSPacket)
  obtain msg where msg:
    "(case tdsMessage v of None \<Rightarrow> CreateTDSMessageFromFirstPacket p
      | Some m \<Rightarrow> Inr (TDSMessage_AddPacket m p)) = Inr msg"
    using Create_NewTDSHeader [of p "bHeader v"] hp assms(1)
    by (cases "tdsMessage v") auto
  obtain s where s: "TDSHeader_StatusBitMask header = Inr s"
    using assms(1) by (simp add: TDSHeader_StatusBitMask_NewTDSHeader)
  show ?thesis
  proof (cases "(s AND END_OF_MESSAGE) = END_OF_MESSAGE")
    case True
    have "ingress_assemble v header w =
        (Inr (v\<lparr>tdsMessage := None\<rparr>),
         w\<lparr>trace := trace w @ [TDSPacketReceived p, TDSMessageReceived msg]\<rparr>)"
      using assms(2) p msg s True by (simp add: ingress_assemble_def Let_def publish_def)
    then show ?thesis
      by (intro exI [of _ "v\<lparr>tdsMessage := None\<rparr>"]
          exI [of _ "[TDSPacketReceived p, TDSMessageReceived msg]"]) simp
  next
    case False
    have "ingress_assemble v header w =
        (Inr (v\<lparr>tdsMessage := Some msg\<rparr>), w\<lparr>trace := trace w @ [TDSPacketReceived p]\<rparr>)"
      using assms(2) p msg s False by (simp add: ingress_assemble_def Let_def publish_def)
    then show ?thesis
      by (intro exI [of _ "v\<lparr>tdsMessage := Some msg\<rparr>"] exI [of _ "[TDSPacketReceived p]"])
        simp
  qed
qed

lemma ingress_forward_whole:
  assumes "upstream_writes_left w = None"
      and "TDSHeader_Type header = Inr ty"
      and "TDSHeader_PayloadSize header = Inr ps"
      and "bBuffer v = b @ rest"
      and "ty = 23 \<or> int (length b) = ps"
  shows "ingress_forward v header (int (length b)) w =
           (Inr v, w\<lparr>trace := trace w @ [UpstreamWrite (bHeader v) False,
                                          UpstreamWrite b False]\<rparr>)"
  using assms
  by (auto simp: ingress_forward_def BridgeSQLSocket_Write_def publish_def go_slice_to_def
      HeaderType_23_def)

lemma ingress_iteration_whole:
  assumes wp: "whole_packet (h, b)"
      and hl: "length (bHeader v) = 8"
      and pend: "client_pending w = (if b = [] then [h] else [h, b]) @ rest"
      and up: "upstream_writes_left w = None"
  shows "\<exists>v' es. ingress_iteration v w =
             (Inr v', w\<lparr>client_pending := rest, trace := trace w @ es\<rparr>) \<and>
           length (bHeader v') = 8 \<and>
           upstream_bytes es = h @ b \<and> client_bytes es = h @ b"
proof -
  from wp have h8: "length h = 8" and ps0: "0 \<le> wire_payload_size h"
    and ty: "wire_type h = 23 \<or> int (length b) = wire_payload_size h"
    by (auto simp: whole_packet_def split: if_splits)
  have hdr: "TDSHeader_Type \<lparr>Buffer = h\<rparr> = Inr (wire_type h)"
    "TDSHeader_PayloadSize \<lparr>Buffer = h\<rparr> = Inr (wire_payload_size h)"
    using h8 by (simp_all add: TDSHeader_LengthIncludingHeader_def TDSHeader_Type_def
        TDSHeader_PayloadSize_def go_index_def wire_type_def wire_payload_size_def
        HEADER_SIZE_def)
  define es1 where "es1 = ClientRead 8 h False #
                (if b = [] then []
                 else [ClientRead (if wire_type h = 23 then 4088 else length b) b False])"
  from ingress_receive_whole [OF wp hl pend] obtain buf
    where r0: "ingress_receive v w =
           (Inr (v\<lparr>bHeader := h, bBuffer := b @ drop (length b) buf\<rparr>, \<lparr>Buffer = h\<rparr>,
                 int (length b)),
            w\<lparr>client_pending := rest, trace := trace w @ es1\<rparr>)"
    unfolding es1_def by blast
  define v1 where "v1 = v\<lparr>bHeader := h, bBuffer := b @ drop (length b) buf\<rparr>"
  define w1 where "w1 = w\<lparr>client_pending := rest, trace := trace w @ es1\<rparr>"
  have r: "ingress_receive v w = (Inr (v1, \<lparr>Buffer = h\<rparr>, int (length b)), w1)"
    by (simp add: r0 v1_def w1_def)
  have hv1: "\<lparr>Buffer = h\<rparr> = NewTDSHeader (bHeader v1)"
    using h8 by (simp add: NewTDSHeader_8 v1_def)
  from ingress_assemble_whole [OF hv1 hdr(2) ps0, of w1] obtain v2 es2
    where a0: "ingress_assemble v1 \<lparr>Buffer = h\<rparr> w1 = (Inr v2, w1\<lparr>trace := trace w1 @ es2\<rparr>)"
      and v2: "bHeader v2 = h" "bBuffer v2 = b @ drop (length b) buf"
      and e2: "upstream_bytes es2 = []" "client_bytes es2 = []"
    by (auto simp: v1_def)
  define w2 where "w2 = w1\<lparr>trace := trace w1 @ es2\<rparr>"
  have a: "ingress_assemble v1 \<lparr>Buffer = h\<rparr> w1 = (Inr v2, w2)"
    by (simp add: a0 w2_def)
  have up2: "upstream_writes_left w2 = None"
    using up by (simp add: w2_def w1_def)
  let ?es = "es1 @ es2 @ [UpstreamWrite h False, UpstreamWrite b False]"
  have "ingress_iteration v w = ingress_forward v2 \<lparr>Buffer = h\<rparr> (int (length b)) w2"
    by (simp add: ingress_iteration_def r a)
  also have "\<dots> = (Inr v2, w2\<lparr>trace := trace w2 @ [UpstreamWrite (bHeader v2) False,
                                                   UpstreamWrite b False]\<rparr>)"
    by (rule ingress_forward_whole [OF up2 hdr(1) hdr(2) v2(2) ty])
  also have "\<dots> = (Inr v2, w\<lparr>client_pending := rest, trace := trace w @ ?es\<rparr>)"
    by (simp add: v2 w2_def w1_def)
  finally have "ingress_iteration v w =
      (Inr v2, w\<lparr>client_pending := rest, trace := trace w @ ?es\<rparr>)" .
  moreover have "upstream_bytes ?es = h @ b" "client_bytes ?es = h @ b"
    using e2 by (simp_all add: es1_def)
  ultimately show ?thesis
    using v2(1) h8 by blast
qed

lemma ingress_loop_whole:
  assumes "list_all whole_packet pkts"
      and "length (bHeader v) = 8"
      and "client_pending w = segments_of pkts"
      and "upstream_writes_left w = None"
  shows "\<exists>w'. ingress_loop v w = (Returned, w') \<and>
           upstream_bytes (trace w') = upstream_bytes (trace w) @ concat (segments_of pkts) \<and>
           client_bytes (trace w') = client_bytes (trace w) @ concat (segments_of pkts)"
  using assms
proof (induction pkts arbitrary: v w)
  case Nil
  then have "client_pending w = []" by simp
  from ingress_iteration_eof [OF this, of v] show ?case
    by (subst ingress_loop.simps) simp
next
  case (Cons hb pkts)
  obtain h b where hb: "hb = (h, b)" by (cases hb)
  from Cons.prems(1) hb have wp: "whole_packet (h, b)" and rest: "list_all whole_packet pkts"
    by simp_all
  from Cons.prems(3) hb
  have pend: "client_pending w = (if b = [] then [h] else [h, b]) @ segments_of pkts"
    by simp
  from ingress_iteration_whole [OF wp Cons.prems(2) pend Cons.prems(4)] obtain v' es
    where it: "ingress_iteration v w =
             (Inr v', w\<lparr>client_pending := segments_of pkts, trace := trace w @ es\<rparr>)"
      and v': "length (bHeader v') = 8"
      and es: "upstream_bytes es = h @ b" "client_bytes es = h @ b"
    by blast
  let ?w1 = "w\<lparr>client_pending := segments_of pkts, trace := trace w @ es\<rparr>"
  have "client_pending ?w1 = segments_of pkts" "upstream_writes_left ?w1 = None"
    using Cons.prems(4) by simp_all
  from Cons.IH [OF rest v' this] obtain w'
    where l: "ingress_loop v' ?w1 = (Returned, w')"
      and u: "upstream_bytes (trace w') = upstream_bytes (trace ?w1) @ concat (segments_of pkts)"
      and c: "client_bytes (trace w') = client_bytes (trace ?w1) @ concat (segments_of pkts)"
    by blast
  have "ingress_loop v w = (Returned, w')"
    by (subst ingress_loop.simps) (simp add: it l)
  moreover have "concat (segments_of (hb # pkts)) = h @ b @ concat (segments_of pkts)"
    by (simp add: hb)
  ultimately show ?case using u c es by simp
qed

text \<open>
  On a client stream that arrives in whole packets, with an upstream socket that accepts
  every write, the loop ends by \<^verbatim>\<open>return\<close> (the client has closed), and the bytes written
  upstream are exactly the bytes read from the client, in order.
\<close>

theorem transparent_on_whole_packets:
  assumes "list_all whole_packet pkts"
  shows "fst (clientBridgeToSQLServer
            \<lparr>client_pending = segments_of pkts, upstream_writes_left = None, trace = []\<rparr>)
           = Returned \<and>
         upstream_bytes (trace (snd (clientBridgeToSQLServer
            \<lparr>client_pending = segments_of pkts, upstream_writes_left = None, trace = []\<rparr>)))
           = concat (segments_of pkts) \<and>
         client_bytes (trace (snd (clientBridgeToSQLServer
            \<lparr>client_pending = segments_of pkts, upstream_writes_left = None, trace = []\<rparr>)))
           = concat (segments_of pkts)"
proof -
  let ?w = "\<lparr>client_pending = segments_of pkts, upstream_writes_left = None, trace = []\<rparr>"
  let ?v = "\<lparr>bBuffer = [], bHeader = replicate (nat HEADER_SIZE) 0, tdsMessage = None\<rparr>"
  have "length (bHeader ?v) = 8" by (simp add: HEADER_SIZE_def)
  from ingress_loop_whole [OF assms this, of ?w] obtain w'
    where "ingress_loop ?v ?w = (Returned, w')"
      and "upstream_bytes (trace w') = concat (segments_of pkts)"
      and "client_bytes (trace w') = concat (segments_of pkts)"
    by auto
  then show ?thesis
    by (simp add: clientBridgeToSQLServer_def publish_def)
qed

section \<open>Properties of the process\<close>

text \<open>
  Claim C9, as the specification states it, fails on the code: when the host name cannot
  be resolved, and when the listener cannot be bound, \<^verbatim>\<open>main\<close> prints the error and returns,
  so the process exits with status 0.
\<close>

theorem C9_startup_failure_exits_zero:
  "snd (main \<lparr>os_Args = [''tdsbridge'', ''1433'', ''nohost.invalid'', ''1433''],
              net_LookupHost = (\<lambda>h. Inl ''no such host''),
              net_Listen = (\<lambda>a. None), stdin_returns = True\<rparr>) = Exit 0 \<and>
   snd (main \<lparr>os_Args = [''tdsbridge'', ''1433'', ''127.0.0.1'', ''1433''],
              net_LookupHost = (\<lambda>h. Inr [h]),
              net_Listen = (\<lambda>a. Some ''address already in use''),
              stdin_returns = True\<rparr>) = Exit 0"
  by (simp add: main_def go_index_def BridgeAcceptor_Start_def NewBridgeAcceptor_def Let_def)

text \<open>
  Claim C9, amended. The process exits with status 0 in each of these cases: fewer than
  three arguments (the usage line is printed); the host name cannot be resolved; the
  listener cannot be bound; and a graceful shutdown, when the bridge has started and
  \<^verbatim>\<open>fmt.Scanln\<close> returns.
\<close>

theorem C9_exit_code_zero:
  "(length (os_Args env) < 4 \<longrightarrow> snd (main env) = Exit 0) \<and>
   (4 \<le> length (os_Args env) \<and> net_LookupHost env (os_Args env ! 2) = Inl err
      \<longrightarrow> snd (main env) = Exit 0) \<and>
   (4 \<le> length (os_Args env) \<and> net_LookupHost env (os_Args env ! 2) = Inr (ip # ips) \<and>
    net_Listen env ('':'' @ os_Args env ! 1) = Some err'
      \<longrightarrow> snd (main env) = Exit 0) \<and>
   (4 \<le> length (os_Args env) \<and> net_LookupHost env (os_Args env ! 2) = Inr (ip # ips) \<and>
    net_Listen env ('':'' @ os_Args env ! 1) = None \<and> stdin_returns env
      \<longrightarrow> snd (main env) = Exit 0)"
  by (simp add: main_def go_index_def BridgeAcceptor_Start_def NewBridgeAcceptor_def Let_def)

theorem C9_exit_code_zero_witness:
  "length (os_Args \<lparr>os_Args = [''tdsbridge'', ''1433''],
                    net_LookupHost = (\<lambda>h. Inr [h]), net_Listen = (\<lambda>a. None),
                    stdin_returns = True\<rparr>) < 4 \<and>
   snd (main \<lparr>os_Args = [''tdsbridge'', ''1433''],
              net_LookupHost = (\<lambda>h. Inr [h]), net_Listen = (\<lambda>a. None),
              stdin_returns = True\<rparr>) = Exit 0 \<and>
   net_LookupHost \<lparr>os_Args = [''tdsbridge'', ''1433'', ''nohost.invalid'', ''1433''],
                   net_LookupHost = (\<lambda>h. Inl ''no such host''), net_Listen = (\<lambda>a. None),
                   stdin_returns = True\<rparr> ''nohost.invalid'' = Inl ''no such host'' \<and>
   snd (main \<lparr>os_Args = [''tdsbridge'', ''1433'', ''nohost.invalid'', ''1433''],
              net_LookupHost = (\<lambda>h. Inl ''no such host''), net_Listen = (\<lambda>a. None),
              stdin_returns = True\<rparr>) = Exit 0 \<and>
   net_Listen \<lparr>os_Args = [''tdsbridge'', ''1433'', ''127.0.0.1'', ''1433''],
               net_LookupHost = (\<lambda>h. Inr [h]),
               net_Listen = (\<lambda>a. Some ''address already in use''),
               stdin_returns = True\<rparr> '':1433'' = Some ''address already in use'' \<and>
   snd (main \<lparr>os_Args = [''tdsbridge'', ''1433'', ''127.0.0.1'', ''1433''],
              net_LookupHost = (\<lambda>h. Inr [h]),
              net_Listen = (\<lambda>a. Some ''address already in use''),
              stdin_returns = True\<rparr>) = Exit 0 \<and>
   stdin_returns \<lparr>os_Args = [''tdsbridge'', ''1433'', ''127.0.0.1'', ''1433''],
                  net_LookupHost = (\<lambda>h. Inr [h]), net_Listen = (\<lambda>a. None),
                  stdin_returns = True\<rparr> \<and>
   snd (main \<lparr>os_Args = [''tdsbridge'', ''1433'', ''127.0.0.1'', ''1433''],
              net_LookupHost = (\<lambda>h. Inr [h]), net_Listen = (\<lambda>a. None),
              stdin_returns = True\<rparr>) = Exit 0"
  using
    C9_exit_code_zero [of "\<lparr>os_Args = [''tdsbridge'', ''1433''],
              net_LookupHost = (\<lambda>h. Inr [h]), net_Listen = (\<lambda>a. None),
              stdin_returns = True\<rparr>"]
    C9_exit_code_zero [of "\<lparr>os_Args = [''tdsbridge'', ''1433'', ''nohost.invalid'', ''1433''],
              net_LookupHost = (\<lambda>h. Inl ''no such host''), net_Listen = (\<lambda>a. None),
              stdin_returns = True\<rparr>" "''no such host''"]
    C9_exit_code_zero [of "\<lparr>os_Args = [''tdsbridge'', ''1433'', ''127.0.0.1'', ''1433''],
              net_LookupHost = (\<lambda>h. Inr [h]),
              net_Listen = (\<lambda>a. Some ''address already in use''),
              stdin_returns = True\<rparr>" _ "''127.0.0.1''" "[]" "''address already in use''"]
    C9_exit_code_zero [of "\<lparr>os_Args = [''tdsbridge'', ''1433'', ''127.0.0.1'', ''1433''],
              net_LookupHost = (\<lambda>h. Inr [h]), net_Listen = (\<lambda>a. None),
              stdin_returns = True\<rparr>" _ "''127.0.0.1''" "[]"]
  by simp

end
